theory Spec2Isabelle
  imports Complex_Main "HOL-Library.AList"
begin

section \<open>Conventions of the embedding\<close>

text \<open>
  Python floats are modelled as exact reals, Python ints as \<open>int\<close> or \<open>nat\<close>, and a
  Python \<open>dict\<close> that the code iterates over as an association list in insertion order
  (a key that is assigned again keeps its place, a new key is appended). A dict that is
  only looked up is a map. Exceptions are values of \<open>py_error\<close> on the left of a sum.
  The storage layer is modelled as far as the algorithms use it, and is assumed to
  answer (no \<open>sqlite3.Error\<close>).
\<close>

datatype py_error = ZeroDivisionError | KeyError

type_synonym ('k, 'v) dict = "('k \<times> 'v) list"

definition dict_get :: "('k, 'v) dict \<Rightarrow> 'k \<Rightarrow> 'v \<Rightarrow> 'v" where
  "dict_get d k dflt = (case map_of d k of None \<Rightarrow> dflt | Some v \<Rightarrow> v)"

definition dict_set :: "('k, 'v) dict \<Rightarrow> 'k \<Rightarrow> 'v \<Rightarrow> ('k, 'v) dict" where
  "dict_set d k v = AList.update k v d"

definition lookup :: "('k \<rightharpoonup> 'v) \<Rightarrow> 'k \<Rightarrow> py_error + 'v" where
  "lookup m k = (case m k of None \<Rightarrow> Inl KeyError | Some v \<Rightarrow> Inr v)"

fun foldE :: "('a \<Rightarrow> 's \<Rightarrow> py_error + 's) \<Rightarrow> 'a list \<Rightarrow> 's \<Rightarrow> py_error + 's" where
  "foldE f [] s = Inr s"
| "foldE f (x # xs) s = (case f x s of Inl e \<Rightarrow> Inl e | Inr s' \<Rightarrow> foldE f xs s')"

text \<open>Truthiness of a nullable integer column: \<open>None\<close> and \<open>0\<close> are false.\<close>

definition truthy :: "int option \<Rightarrow> bool" where
  "truthy t = (case t of None \<Rightarrow> False | Some i \<Rightarrow> i \<noteq> 0)"

section \<open>config.py\<close>

record pagerank_config =
  damping_factor :: real
  max_iterations :: nat
  tolerance :: real

definition PAGERANK_CONFIG :: pagerank_config where
  "PAGERANK_CONFIG = \<lparr> damping_factor = 85 / 100, max_iterations = 100, tolerance = 1 / 10 ^ 6 \<rparr>"

section \<open>database.py\<close>

text \<open>
  Each table is the list of its rows in rowid order. \<open>INSERT OR REPLACE\<close> deletes the
  row with the same key and appends the new one. The two counters are the
  \<open>AUTOINCREMENT\<close> sequences.
\<close>

record Database =
  documents :: "(int \<times> string \<times> string \<times> string) list"
  words :: "(int \<times> string \<times> nat) list"
  links :: "(int \<times> string \<times> int option) list"
  inverted_index :: "(int \<times> int \<times> real \<times> nat list) list"
  pagerank :: "(int \<times> real \<times> nat) list"
  documents_seq :: int
  words_seq :: int

definition empty_db :: Database where
  "empty_db = \<lparr> documents = [], words = [], links = [], inverted_index = [], pagerank = [],
     documents_seq = 0, words_seq = 0 \<rparr>"

definition get_all_documents :: "Database \<Rightarrow> (int \<times> string \<times> string) list" where
  "get_all_documents db = map (\<lambda>(i, u, t, c). (i, u, t)) (documents db)"

definition get_outgoing_links :: "Database \<Rightarrow> int \<Rightarrow> (int option \<times> string) list" where
  "get_outgoing_links db doc_id =
     map (\<lambda>(s, u, t). (t, u)) (filter (\<lambda>(s, u, t). s = doc_id) (links db))"

definition get_incoming_links :: "Database \<Rightarrow> int \<Rightarrow> int list" where
  "get_incoming_links db doc_id =
     map (\<lambda>(s, u, t). s) (filter (\<lambda>(s, u, t). t = Some doc_id) (links db))"

definition update_pagerank :: "Database \<Rightarrow> int \<Rightarrow> real \<Rightarrow> nat \<Rightarrow> Database" where
  "update_pagerank db doc_id pr it =
     db \<lparr> pagerank := filter (\<lambda>(d, p, i). d \<noteq> doc_id) (pagerank db) @ [(doc_id, pr, it)] \<rparr>"

definition save_pageranks :: "Database \<Rightarrow> (int, real) dict \<Rightarrow> nat \<Rightarrow> Database" where
  "save_pageranks db current it = fold (\<lambda>(doc_id, rank) d. update_pagerank d doc_id rank it) current db"

section \<open>pagerank\_mapreduce.py\<close>

record PageRankMapReduce =
  mr_damping_factor :: real
  mr_max_iterations :: nat
  mr_tolerance :: real
  mr_documents :: "(int \<times> string \<times> string) list"
  mr_doc_ids :: "int list"
  mr_num_documents :: nat
  mr_pagerank :: "(int, real) dict"
  mr_outgoing_links :: "int \<rightharpoonup> int list"
  mr_incoming_links :: "int \<rightharpoonup> int list"

text \<open>
  \<open>__init__\<close>. The division \<open>1.0 / num_documents\<close> stands inside the dict comprehension
  over \<open>doc_ids\<close>, so it is evaluated only when there is a document.
\<close>

definition mr_init :: "pagerank_config \<Rightarrow> Database \<Rightarrow> PageRankMapReduce" where
  "mr_init cfg db =
     (let docs = get_all_documents db;
          ids = map fst docs;
          n = length ids
      in \<lparr> mr_damping_factor = damping_factor cfg,
           mr_max_iterations = max_iterations cfg,
           mr_tolerance = tolerance cfg,
           mr_documents = docs,
           mr_doc_ids = ids,
           mr_num_documents = n,
           mr_pagerank = fold (\<lambda>doc_id d. dict_set d doc_id (1 / real n)) ids [],
           mr_outgoing_links =
             fold (\<lambda>doc_id m. m(doc_id \<mapsto>
                     map (\<lambda>l. the (fst l)) (filter (\<lambda>l. truthy (fst l)) (get_outgoing_links db doc_id))))
                  ids Map.empty,
           mr_incoming_links =
             fold (\<lambda>doc_id m. m(doc_id \<mapsto> get_incoming_links db doc_id)) ids Map.empty \<rparr>)"

definition map_phase :: "PageRankMapReduce \<Rightarrow> int \<Rightarrow> real \<Rightarrow> (int \<times> real) list" where
  "map_phase e doc_id pr =
     (case mr_outgoing_links e doc_id of
        None \<Rightarrow> []
      | Some outgoing \<Rightarrow>
          if outgoing = [] then []
          else (let share = pr / real (length outgoing)
                in map (\<lambda>target_id. (target_id, share)) outgoing))"

definition reduce_phase :: "(int \<times> real) list \<Rightarrow> (int, real) dict" where
  "reduce_phase contributions =
     fold (\<lambda>(doc_id, contribution) reduced.
             dict_set reduced doc_id (dict_get reduced doc_id 0 + contribution))
          contributions []"

text \<open>
  One iteration. \<open>base_rank\<close> is computed first in the body of the loop over \<open>doc_ids\<close>,
  so the division by \<open>num_documents\<close> raises exactly when the loop runs and the count is 0.
\<close>

definition calculate_pagerank_iteration ::
  "PageRankMapReduce \<Rightarrow> (int, real) dict \<Rightarrow> py_error + (int, real) dict" where
  "calculate_pagerank_iteration e current_pagerank =
     (let all_contributions = concat (map (\<lambda>(doc_id, rank). map_phase e doc_id rank) current_pagerank);
          new_ranks = reduce_phase all_contributions
      in if mr_doc_ids e \<noteq> [] \<and> mr_num_documents e = 0 then Inl ZeroDivisionError
         else Inr (fold (\<lambda>doc_id nr.
                      (let base_rank = (1 - mr_damping_factor e) / real (mr_num_documents e);
                           incoming_rank = dict_get nr doc_id 0 * mr_damping_factor e
                       in dict_set nr doc_id (base_rank + incoming_rank)))
                    (mr_doc_ids e) new_ranks))"

definition calculate_convergence ::
  "PageRankMapReduce \<Rightarrow> (int, real) dict \<Rightarrow> (int, real) dict \<Rightarrow> py_error + real" where
  "calculate_convergence e old_ranks new_ranks =
     (let total_diff = fold (\<lambda>doc_id acc.
                          (let diff = dict_get new_ranks doc_id 0 - dict_get old_ranks doc_id 0
                           in acc + diff * diff))
                        (mr_doc_ids e) 0
      in if mr_num_documents e = 0 then Inl ZeroDivisionError
         else Inr (sqrt (total_diff / real (mr_num_documents e))))"

text \<open>
  The loop of \<open>calculate\<close>: \<open>it\<close> iterations are done, \<open>n\<close> remain. The result is the
  score dict and the storage after the writes.
\<close>

fun mr_loop :: "PageRankMapReduce \<Rightarrow> nat \<Rightarrow> nat \<Rightarrow> (int, real) dict \<Rightarrow> Database \<Rightarrow>
    py_error + ((int, real) dict \<times> Database)" where
  "mr_loop e it 0 current db = Inr (current, db)"
| "mr_loop e it (Suc n) current db =
     (case calculate_pagerank_iteration e current of
        Inl err \<Rightarrow> Inl err
      | Inr new_pagerank \<Rightarrow>
          (case calculate_convergence e current new_pagerank of
             Inl err \<Rightarrow> Inl err
           | Inr convergence \<Rightarrow>
               (let db' = save_pageranks db new_pagerank (it + 1)
                in if convergence < mr_tolerance e then Inr (new_pagerank, db')
                   else mr_loop e (it + 1) n new_pagerank db')))"

definition mr_calculate :: "PageRankMapReduce \<Rightarrow> Database \<Rightarrow>
    py_error + ((int, real) dict \<times> PageRankMapReduce \<times> Database)" where
  "mr_calculate e db =
     (case mr_loop e 0 (mr_max_iterations e) (mr_pagerank e) db of
        Inl err \<Rightarrow> Inl err
      | Inr (current, db') \<Rightarrow> Inr (current, e \<lparr> mr_pagerank := current \<rparr>, db'))"

section \<open>pagerank\_pregel.py\<close>

record PregelVertex =
  vid :: nat
  vvalue :: real
  outgoing_edges :: "nat list"
  active :: bool

definition new_vertex :: "nat \<Rightarrow> PregelVertex" where
  "new_vertex i = \<lparr> vid = i, vvalue = 0, outgoing_edges = [], active = True \<rparr>"

definition send_messages :: "PregelVertex \<Rightarrow> (nat \<times> real) list" where
  "send_messages v =
     (if outgoing_edges v = [] then []
      else (let share = vvalue v / real (length (outgoing_edges v))
            in map (\<lambda>neighbor. (neighbor, share)) (outgoing_edges v)))"

record SimplePregelGraph =
  vertices :: "PregelVertex list"
  num_vertices :: nat
  superstep :: nat
  messages :: "(nat, real list) dict"

definition new_graph :: "nat \<Rightarrow> SimplePregelGraph" where
  "new_graph n = \<lparr> vertices = map new_vertex [0..<n], num_vertices = n, superstep = 0, messages = [] \<rparr>"

text \<open>
  \<open>add_edge\<close>: indices are naturals here, so \<open>0 <= source\<close> holds; \<open>vertices[source]\<close>
  is inside the list whenever the list has \<open>num_vertices\<close> entries, and the model leaves
  the graph alone otherwise.
\<close>

definition add_edge :: "SimplePregelGraph \<Rightarrow> nat \<Rightarrow> nat \<Rightarrow> SimplePregelGraph" where
  "add_edge g source target =
     (if source < num_vertices g \<and> target < num_vertices g \<and> source < length (vertices g)
      then g \<lparr> vertices := (vertices g)[source :=
                 (vertices g ! source) \<lparr> outgoing_edges := outgoing_edges (vertices g ! source) @ [target] \<rparr>] \<rparr>
      else g)"

definition initialize_pagerank :: "SimplePregelGraph \<Rightarrow> py_error + SimplePregelGraph" where
  "initialize_pagerank g =
     (if num_vertices g = 0 then Inl ZeroDivisionError
      else Inr (g \<lparr> vertices := map (\<lambda>v. v \<lparr> vvalue := 1 / real (num_vertices g), active := True \<rparr>) (vertices g) \<rparr>))"

text \<open>Phase 1 of a superstep: the messages of the active vertices, grouped by target.\<close>

definition collect_messages :: "PregelVertex list \<Rightarrow> (nat, real list) dict" where
  "collect_messages vs =
     fold (\<lambda>v msgs.
             if active v
             then fold (\<lambda>(target_id, message_value) m.
                          dict_set m target_id (dict_get m target_id [] @ [message_value]))
                       (send_messages v) msgs
             else msgs)
          vs []"

text \<open>Phase 2 for one vertex, reading the messages of phase 1.\<close>

definition receive :: "real \<Rightarrow> nat \<Rightarrow> (nat, real list) dict \<Rightarrow> PregelVertex \<Rightarrow> PregelVertex" where
  "receive d n msgs v =
     (let incoming_messages = dict_get msgs (vid v) [];
          incoming_sum = (if incoming_messages \<noteq> [] then sum_list incoming_messages else 0);
          random_walk = (1 - d) / real n;
          new_value = random_walk + d * incoming_sum
      in v \<lparr> vvalue := new_value, active := (\<bar>new_value - vvalue v\<bar> > 1 / 10 ^ 10) \<rparr>)"

definition run_superstep :: "real \<Rightarrow> SimplePregelGraph \<Rightarrow> py_error + (SimplePregelGraph \<times> bool)" where
  "run_superstep d g =
     (let msgs = collect_messages (vertices g)
      in if vertices g \<noteq> [] \<and> num_vertices g = 0 then Inl ZeroDivisionError
         else (let vs = map (receive d (num_vertices g) msgs) (vertices g);
                   active_vertices = length (filter active vs)
               in Inr (g \<lparr> vertices := vs, superstep := superstep g + 1, messages := msgs \<rparr>,
                       active_vertices > 0)))"

record PageRankPregel =
  pg_damping_factor :: real
  pg_max_iterations :: nat
  pg_tolerance :: real
  pg_documents :: "(int \<times> string \<times> string) list"
  pg_doc_ids :: "int list"
  pg_num_documents :: nat
  pg_id_to_index :: "int \<rightharpoonup> nat"
  pg_index_to_id :: "nat \<rightharpoonup> int"
  pg_graph :: "SimplePregelGraph option"

definition build_graph :: "Database \<Rightarrow> int list \<Rightarrow> (int \<rightharpoonup> nat) \<Rightarrow> SimplePregelGraph \<Rightarrow>
    py_error + SimplePregelGraph" where
  "build_graph db ids id_to_index g =
     foldE (\<lambda>doc_id g1.
              case lookup id_to_index doc_id of
                Inl err \<Rightarrow> Inl err
              | Inr source_idx \<Rightarrow>
                  foldE (\<lambda>(target_doc_id, u) g2.
                           if truthy target_doc_id \<and> the target_doc_id \<in> dom id_to_index
                           then (case lookup id_to_index (the target_doc_id) of
                                   Inl err \<Rightarrow> Inl err
                                 | Inr target_idx \<Rightarrow> Inr (add_edge g2 source_idx target_idx))
                           else Inr g2)
                        (get_outgoing_links db doc_id) g1)
          ids g"

definition pg_init :: "pagerank_config \<Rightarrow> Database \<Rightarrow> py_error + PageRankPregel" where
  "pg_init cfg db =
     (let docs = get_all_documents db;
          ids = map fst docs;
          n = length ids;
          e0 = \<lparr> pg_damping_factor = damping_factor cfg,
                 pg_max_iterations = max_iterations cfg,
                 pg_tolerance = tolerance cfg,
                 pg_documents = docs,
                 pg_doc_ids = ids,
                 pg_num_documents = n,
                 pg_id_to_index = Map.empty,
                 pg_index_to_id = Map.empty,
                 pg_graph = None \<rparr>
      in if n = 0 then Inr e0
         else (let id_to_index = fold (\<lambda>(i, doc_id) m. m(doc_id \<mapsto> i)) (enumerate 0 ids) Map.empty;
                   index_to_id = fold (\<lambda>(i, doc_id) m. m(i \<mapsto> doc_id)) (enumerate 0 ids) Map.empty
               in case build_graph db ids id_to_index (new_graph n) of
                    Inl err \<Rightarrow> Inl err
                  | Inr g \<Rightarrow> Inr (e0 \<lparr> pg_id_to_index := id_to_index,
                                       pg_index_to_id := index_to_id,
                                       pg_graph := Some g \<rparr>)))"

definition get_current_pagerank :: "PageRankPregel \<Rightarrow> py_error + (int, real) dict" where
  "get_current_pagerank e =
     (case pg_graph e of
        None \<Rightarrow> Inr []
      | Some g \<Rightarrow>
          foldE (\<lambda>(i, vertex) pr.
                   case lookup (pg_index_to_id e) i of
                     Inl err \<Rightarrow> Inl err
                   | Inr doc_id \<Rightarrow> Inr (dict_set pr doc_id (vvalue vertex)))
                (enumerate 0 (vertices g)) [])"

text \<open>The loop of \<open>calculate\<close>; the graph of the engine is the state of the supersteps.\<close>

fun pg_loop :: "PageRankPregel \<Rightarrow> nat \<Rightarrow> nat \<Rightarrow> SimplePregelGraph \<Rightarrow> Database \<Rightarrow>
    py_error + (SimplePregelGraph \<times> Database)" where
  "pg_loop e it 0 g db = Inr (g, db)"
| "pg_loop e it (Suc n) g db =
     (case run_superstep (pg_damping_factor e) g of
        Inl err \<Rightarrow> Inl err
      | Inr (g', act) \<Rightarrow>
          (case get_current_pagerank (e \<lparr> pg_graph := Some g' \<rparr>) of
             Inl err \<Rightarrow> Inl err
           | Inr current_pagerank \<Rightarrow>
               (let db' = save_pageranks db current_pagerank (it + 1)
                in if \<not> act then Inr (g', db')
                   else pg_loop e (it + 1) n g' db')))"

definition pg_calculate :: "PageRankPregel \<Rightarrow> Database \<Rightarrow>
    py_error + ((int, real) dict \<times> PageRankPregel \<times> Database)" where
  "pg_calculate e db =
     (case pg_graph e of
        None \<Rightarrow> Inr ([], e, db)
      | Some g \<Rightarrow>
          if pg_num_documents e = 0 then Inr ([], e, db)
          else (case initialize_pagerank g of
                  Inl err \<Rightarrow> Inl err
                | Inr g0 \<Rightarrow>
                    (case pg_loop e 0 (pg_max_iterations e) g0 db of
                       Inl err \<Rightarrow> Inl err
                     | Inr (g', db') \<Rightarrow>
                         (case get_current_pagerank (e \<lparr> pg_graph := Some g' \<rparr>) of
                            Inl err \<Rightarrow> Inl err
                          | Inr result \<Rightarrow> Inr (result, e \<lparr> pg_graph := Some g' \<rparr>, db')))))"

text \<open>Constructing an engine on a storage and running it, as a caller does.\<close>

definition run_mapreduce :: "pagerank_config \<Rightarrow> Database \<Rightarrow> py_error + (int, real) dict" where
  "run_mapreduce cfg db =
     (case mr_calculate (mr_init cfg db) db of Inl err \<Rightarrow> Inl err | Inr (r, e, db') \<Rightarrow> Inr r)"

definition run_pregel :: "pagerank_config \<Rightarrow> Database \<Rightarrow> py_error + (int, real) dict" where
  "run_pregel cfg db =
     (case pg_init cfg db of
        Inl err \<Rightarrow> Inl err
      | Inr e \<Rightarrow> (case pg_calculate e db of Inl err \<Rightarrow> Inl err | Inr (r, e', db') \<Rightarrow> Inr r))"

section \<open>utils.py\<close>

text \<open>
  A \<open>char\<close> stands for the Unicode code point of the same number (U+0000 to U+00FF), and
  a \<open>string\<close> for a Python \<open>str\<close> over that range. \<open>is_space\<close> is the class \<open>\s\<close> of the
  \<open>re\<close> module, which is also the whitespace of \<open>str.split\<close> and \<open>str.strip\<close>;
  \<open>is_word\<close> is the class \<open>\w\<close>; \<open>char_lower\<close> is \<open>str.lower\<close> on one character.
\<close>

definition is_space :: "char \<Rightarrow> bool" where
  "is_space c = (let n = (of_char c :: nat)
                 in (9 \<le> n \<and> n \<le> 13) \<or> (28 \<le> n \<and> n \<le> 32) \<or> n = 133 \<or> n = 160)"

definition is_word :: "char \<Rightarrow> bool" where
  "is_word c = (let n = (of_char c :: nat)
                in (48 \<le> n \<and> n \<le> 57) \<or> (65 \<le> n \<and> n \<le> 90) \<or> n = 95 \<or> (97 \<le> n \<and> n \<le> 122)
                   \<or> n = 170 \<or> n = 178 \<or> n = 179 \<or> n = 181 \<or> n = 185 \<or> n = 186
                   \<or> n = 188 \<or> n = 189 \<or> n = 190
                   \<or> (192 \<le> n \<and> n \<le> 214) \<or> (216 \<le> n \<and> n \<le> 246) \<or> (248 \<le> n \<and> n \<le> 255))"

definition char_lower :: "char \<Rightarrow> char" where
  "char_lower c = (let n = (of_char c :: nat)
                   in if (65 \<le> n \<and> n \<le> 90) \<or> (192 \<le> n \<and> n \<le> 222 \<and> n \<noteq> 215)
                      then char_of (n + 32) else c)"

definition lower :: "string \<Rightarrow> string" where
  "lower s = map char_lower s"

definition strip :: "string \<Rightarrow> string" where
  "strip s = rev (dropWhile is_space (rev (dropWhile is_space s)))"

text \<open>\<open>str.split()\<close> without arguments: the maximal runs of non-whitespace.\<close>

function split_ws :: "string \<Rightarrow> string list" where
  "split_ws [] = []"
| "split_ws (c # cs) =
     (if is_space c then split_ws cs
      else (c # takeWhile (\<lambda>x. \<not> is_space x) cs) # split_ws (dropWhile (\<lambda>x. \<not> is_space x) cs))"
  by pat_completeness auto
termination
  by (relation "measure length") (auto simp: length_dropWhile_le less_Suc_eq_le)

text \<open>
  \<open>re.sub(r'<[^>]+>', ' ', text)\<close>: scanning from the left, a \<open><\<close> followed by at least
  one character other than \<open>>\<close> and then by \<open>>\<close> is replaced, with all between, by one space.
\<close>

function strip_tags :: "string \<Rightarrow> string" where
  "strip_tags [] = []"
| "strip_tags (c # cs) =
     (if c = CHR ''<'' \<and> takeWhile (\<lambda>x. x \<noteq> CHR ''>'') cs \<noteq> [] \<and> dropWhile (\<lambda>x. x \<noteq> CHR ''>'') cs \<noteq> []
      then CHR '' '' # strip_tags (tl (dropWhile (\<lambda>x. x \<noteq> CHR ''>'') cs))
      else c # strip_tags cs)"
  by pat_completeness auto
termination
proof (relation "measure length")
  show "wf (measure length)" by simp
next
  fix c :: char and cs :: string
  have "length (tl (dropWhile (\<lambda>x. x \<noteq> CHR ''>'') cs)) \<le> length cs"
    using length_dropWhile_le [of "\<lambda>x. x \<noteq> CHR ''>''" cs] by simp
  then show "(tl (dropWhile (\<lambda>x. x \<noteq> CHR ''>'') cs), c # cs) \<in> measure length"
    by simp
next
  fix c :: char and cs :: string
  show "(cs, c # cs) \<in> measure length" by simp
qed

text \<open>\<open>re.sub(r'[^\w\s]', ' ', text)\<close>.\<close>

definition replace_special :: "string \<Rightarrow> string" where
  "replace_special s = map (\<lambda>c. if is_word c \<or> is_space c then c else CHR '' '') s"

text \<open>\<open>re.sub(r'\s+', ' ', text)\<close>: every maximal run of whitespace becomes one space.\<close>

function collapse_ws :: "string \<Rightarrow> string" where
  "collapse_ws [] = []"
| "collapse_ws (c # cs) =
     (if is_space c then CHR '' '' # collapse_ws (dropWhile is_space cs)
      else c # collapse_ws cs)"
  by pat_completeness auto
termination
  by (relation "measure length") (auto simp: length_dropWhile_le less_Suc_eq_le)

definition clean_text :: "string \<Rightarrow> string" where
  "clean_text text = lower (strip (collapse_ws (replace_special (strip_tags text))))"

definition tokenize :: "string \<Rightarrow> string set \<Rightarrow> string list" where
  "tokenize text stop_words = filter (\<lambda>token. token \<notin> stop_words) (split_ws (clean_text text))"


text \<open>
  \<open>str.find(sub, start)\<close> with \<open>0 <= start\<close>: the least index from \<open>start\<close> on at which
  \<open>sub\<close> occurs, \<open>None\<close> for \<open>-1\<close>. \<open>find_in\<close> scans the rest of the text, \<open>p\<close> being the
  index of its first character.
\<close>

fun find_in :: "string \<Rightarrow> string \<Rightarrow> nat \<Rightarrow> nat option" where
  "find_in sub [] p = (if sub = [] then Some p else None)"
| "find_in sub (c # cs) p =
     (if take (length sub) (c # cs) = sub then Some p else find_in sub cs (p + 1))"

definition py_find :: "string \<Rightarrow> string \<Rightarrow> nat \<Rightarrow> nat option" where
  "py_find text sub start =
     (if start > length text then None else find_in sub (drop start text) start)"

lemma find_in_bounds: "find_in sub cs p = Some q \<Longrightarrow> p \<le> q \<and> q \<le> p + length cs"
proof (induction cs arbitrary: p)
  case Nil
  then show ?case by (simp split: if_splits)
next
  case (Cons c cs)
  show ?case
  proof (cases "take (length sub) (c # cs) = sub")
    case True
    with Cons.prems show ?thesis by simp
  next
    case False
    with Cons.prems have "find_in sub cs (p + 1) = Some q" by simp
    from Cons.IH [OF this] show ?thesis by simp
  qed
qed

lemma py_find_bounds: "py_find text sub start = Some q \<Longrightarrow> start \<le> q \<and> q \<le> length text"
  unfolding py_find_def
  by (auto split: if_splits dest!: find_in_bounds)

text \<open>
  The inner \<open>while True\<close> loop of \<open>generate_snippet\<close> for one term: all occurrences of
  \<open>sub\<close> in \<open>text\<close> from \<open>start\<close> on, each as (start, end).
\<close>

function occurrences :: "string \<Rightarrow> string \<Rightarrow> nat \<Rightarrow> (nat \<times> nat) list" where
  "occurrences text sub start =
     (case py_find text sub start of
        None \<Rightarrow> []
      | Some pos \<Rightarrow> (pos, pos + length sub) # occurrences text sub (pos + 1))"
  by pat_completeness auto
termination
proof (relation "measure (\<lambda>(text, sub, start). Suc (length text) - start)")
  show "wf (measure (\<lambda>(text, sub, start). Suc (length text) - start))" by simp
next
  fix s sub :: string and start pos :: nat
  assume "py_find s sub start = Some pos"
  then have "start \<le> pos \<and> pos \<le> length s" by (rule py_find_bounds)
  then show "((s, sub, pos + 1), (s, sub, start))
      \<in> measure (\<lambda>(text, sub, start). Suc (length text) - start)"
    by auto
qed

declare occurrences.simps [simp del]

definition ellipsis :: string where
  "ellipsis = ''...''"

text \<open>
  \<open>generate_snippet\<close>. \<open>max_length\<close> is a length (the configured 150), a natural number;
  then \<open>max(0, first_pos - max_length // 2)\<close> is the truncated difference.
\<close>

definition generate_snippet :: "string \<Rightarrow> string list \<Rightarrow> nat \<Rightarrow> string" where
  "generate_snippet text query_terms max_length =
     (if text = [] then []
      else (let positions = concat (map (\<lambda>term. occurrences (lower text) (lower term) 0) query_terms)
            in if positions = []
               then (if length text > max_length then take max_length text @ ellipsis else text)
               else (let first_pos = fold min (map fst (tl positions)) (fst (hd positions));
                         start = first_pos - max_length div 2;
                         end = min (length text) (start + max_length);
                         snippet = take (end - start) (drop start text);
                         snippet1 = (if start > 0 then ellipsis @ snippet else snippet);
                         snippet2 = (if end < length text then snippet1 @ ellipsis else snippet1)
                     in snippet2)))"

section \<open>config.py, continued\<close>

definition STOP_WORDS :: "string set" where
  "STOP_WORDS = {''a'', ''an'', ''the'', ''and'', ''or'', ''but'', ''in'', ''on'', ''at'', ''to'', ''for'',
     ''of'', ''with'', ''by'', ''is'', ''are'', ''was'', ''were'', ''be'', ''been'', ''being'',
     ''have'', ''has'', ''had'', ''do'', ''does'', ''did'', ''will'', ''would'', ''shall'',
     ''should'', ''may'', ''might'', ''must'', ''can'', ''could'', ''i'', ''you'', ''he'',
     ''she'', ''it'', ''we'', ''they'', ''me'', ''him'', ''her'', ''us'', ''them'', ''this'',
     ''that'', ''these'', ''those'', ''am'', ''is'', ''are''}"

record search_config =
  results_per_page :: nat
  snippet_length :: nat

definition SEARCH_CONFIG :: search_config where
  "SEARCH_CONFIG = \<lparr> results_per_page = 10, snippet_length = 150 \<rparr>"

section \<open>database.py, continued\<close>

definition get_document_id :: "Database \<Rightarrow> string \<Rightarrow> int option" where
  "get_document_id db url =
     (case filter (\<lambda>(i, u, t, c). u = url) (documents db) of
        [] \<Rightarrow> None
      | (i, u, t, c) # rest \<Rightarrow> Some i)"

text \<open>
  \<open>add_document\<close>: \<open>INSERT OR IGNORE\<close> on the unique url, then the row of that url is
  updated; the new id is the next value of the sequence.
\<close>

definition add_document :: "Database \<Rightarrow> string \<Rightarrow> string \<Rightarrow> string \<Rightarrow> int \<times> Database" where
  "add_document db url title content =
     (let db1 = (if get_document_id db url = None
                 then db \<lparr> documents := documents db @ [(documents_seq db + 1, url, title, content)],
                           documents_seq := documents_seq db + 1 \<rparr>
                 else db)
      in case get_document_id db1 url of
           Some doc_id \<Rightarrow>
             (doc_id, db1 \<lparr> documents := map (\<lambda>(i, u, t, c). if i = doc_id then (i, u, title, content)
                                                               else (i, u, t, c)) (documents db1) \<rparr>)
         | None \<Rightarrow>
             (documents_seq db1 + 1,
              db1 \<lparr> documents := documents db1 @ [(documents_seq db1 + 1, url, title, content)],
                    documents_seq := documents_seq db1 + 1 \<rparr>))"

definition get_word_id :: "Database \<Rightarrow> string \<Rightarrow> int option" where
  "get_word_id db word =
     (case filter (\<lambda>(i, w, f). w = word) (words db) of
        [] \<Rightarrow> None
      | (i, w, f) # rest \<Rightarrow> Some i)"

definition add_word :: "Database \<Rightarrow> string \<Rightarrow> int \<times> Database" where
  "add_word db word =
     (case get_word_id db word of
        Some word_id \<Rightarrow>
          (word_id, db \<lparr> words := map (\<lambda>(i, w, f). if i = word_id then (i, w, f + 1) else (i, w, f)) (words db) \<rparr>)
      | None \<Rightarrow>
          (words_seq db + 1,
           db \<lparr> words := words db @ [(words_seq db + 1, word, 1)], words_seq := words_seq db + 1 \<rparr>))"

definition add_link :: "Database \<Rightarrow> int \<Rightarrow> string \<Rightarrow> int option \<Rightarrow> Database" where
  "add_link db source_doc_id target_url target_doc_id =
     (if filter (\<lambda>(s, u, t). s = source_doc_id \<and> u = target_url) (links db) \<noteq> [] then db
      else db \<lparr> links := links db @ [(source_doc_id, target_url, target_doc_id)] \<rparr>)"

definition add_inverted_index_entry :: "Database \<Rightarrow> int \<Rightarrow> int \<Rightarrow> real \<Rightarrow> nat list \<Rightarrow> Database" where
  "add_inverted_index_entry db word_id doc_id tf positions =
     db \<lparr> inverted_index :=
            filter (\<lambda>(w, d, t, ps). \<not> (w = word_id \<and> d = doc_id)) (inverted_index db)
            @ [(word_id, doc_id, tf, positions)] \<rparr>"

definition get_document_content :: "Database \<Rightarrow> int \<Rightarrow> string option" where
  "get_document_content db doc_id =
     (case filter (\<lambda>(i, u, t, c). i = doc_id) (documents db) of
        [] \<Rightarrow> None
      | (i, u, t, c) # rest \<Rightarrow> Some c)"

text \<open>
  \<open>get_documents_for_word\<close>: the join of the postings with the row of the word. SQL
  leaves the order of the rows open; the model takes the postings in table order.
\<close>

definition get_documents_for_word :: "Database \<Rightarrow> string \<Rightarrow> (int \<times> real) list" where
  "get_documents_for_word db word =
     concat (map (\<lambda>(w, d, t, ps).
                    map (\<lambda>r. (d, t)) (filter (\<lambda>(i, wd, f). i = w \<and> wd = word) (words db)))
                 (inverted_index db))"

definition get_total_documents :: "Database \<Rightarrow> nat" where
  "get_total_documents db = length (documents db)"

definition get_all_pageranks :: "Database \<Rightarrow> (int \<rightharpoonup> real)" where
  "get_all_pageranks db = fold (\<lambda>(d, p, i) m. m(d \<mapsto> p)) (pagerank db) Map.empty"

section \<open>parser.py\<close>

text \<open>\<open>Counter(tokens)\<close>: the distinct tokens in order of first occurrence with their counts.\<close>

definition Counter :: "string list \<Rightarrow> (string, nat) dict" where
  "Counter tokens = fold (\<lambda>token c. dict_set c token (dict_get c token 0 + 1)) tokens []"

definition positions_cache :: "string list \<Rightarrow> (string \<rightharpoonup> nat list)" where
  "positions_cache tokens =
     fold (\<lambda>(i, token) m. m(token \<mapsto> (case m token of None \<Rightarrow> [] | Some ps \<Rightarrow> ps) @ [i]))
          (enumerate 0 tokens) Map.empty"

definition add_links :: "Database \<Rightarrow> int \<Rightarrow> string list \<Rightarrow> Database" where
  "add_links db doc_id lnks =
     fold (\<lambda>link d. add_link d doc_id link (get_document_id d link)) lnks db"

definition index_document :: "Database \<Rightarrow> string \<Rightarrow> string \<Rightarrow> string \<Rightarrow> string list \<Rightarrow> Database" where
  "index_document db url title content lnks =
     (case add_document db url title content of
        (doc_id, db1) \<Rightarrow>
          if doc_id = - 1 then db1
          else (let tokens = tokenize content STOP_WORDS
                in if tokens = [] then add_links db1 doc_id lnks
                   else (let term_counts = Counter tokens;
                             cache = positions_cache tokens;
                             db2 = fold (\<lambda>(word, count) d.
                                           case add_word d word of
                                             (word_id, d1) \<Rightarrow>
                                               if word_id = - 1 then d1
                                               else add_inverted_index_entry d1 word_id doc_id (real count)
                                                      (case cache word of None \<Rightarrow> [] | Some ps \<Rightarrow> ps))
                                        term_counts db1
                         in add_links db2 doc_id lnks)))"

section \<open>search\_engine.py\<close>

record SearchEngine =
  total_documents :: nat
  se_results_per_page :: nat
  se_snippet_length :: nat
  idf_cache :: "string \<rightharpoonup> real"

definition se_init :: "search_config \<Rightarrow> Database \<Rightarrow> SearchEngine" where
  "se_init cfg db = \<lparr> total_documents = get_total_documents db,
                      se_results_per_page = results_per_page cfg,
                      se_snippet_length = snippet_length cfg,
                      idf_cache = Map.empty \<rparr>"

definition calculate_idf :: "SearchEngine \<Rightarrow> Database \<Rightarrow> string \<Rightarrow> real \<times> SearchEngine" where
  "calculate_idf eng db word =
     (case idf_cache eng word of
        Some v \<Rightarrow> (v, eng)
      | None \<Rightarrow>
          (let docs_with_word = get_documents_for_word db word;
               doc_count = length docs_with_word
           in if doc_count = 0 then (0, eng \<lparr> idf_cache := (idf_cache eng)(word \<mapsto> 0) \<rparr>)
              else (let idf = ln ((real (total_documents eng) + 1) / (real doc_count + 1)) + 1
                    in (idf, eng \<lparr> idf_cache := (idf_cache eng)(word \<mapsto> idf) \<rparr>))))"

definition calculate_tf :: "int \<Rightarrow> nat \<Rightarrow> real" where
  "calculate_tf term_count total_terms =
     (if total_terms = 0 then 0 else real_of_int term_count / real total_terms)"

text \<open>\<open>int(x)\<close> on a float: truncation towards zero.\<close>

definition py_int :: "real \<Rightarrow> int" where
  "py_int x = (if 0 \<le> x then \<lfloor>x\<rfloor> else \<lceil>x\<rceil>)"

text \<open>The loop of term-at-a-time that collects the token count of every document with content.\<close>

definition doc_lengths :: "Database \<Rightarrow> (int \<rightharpoonup> nat)" where
  "doc_lengths db =
     fold (\<lambda>(doc_id, url, title) m.
             case get_document_content db doc_id of
               None \<Rightarrow> m
             | Some content \<Rightarrow>
                 if content \<noteq> [] then m(doc_id \<mapsto> length (tokenize content STOP_WORDS)) else m)
          (get_all_documents db) Map.empty"

text \<open>The body of the loop over the query terms in term-at-a-time.\<close>

definition taat_term :: "Database \<Rightarrow> (int \<rightharpoonup> nat) \<Rightarrow> string \<Rightarrow>
    (int, real) dict \<times> SearchEngine \<Rightarrow> (int, real) dict \<times> SearchEngine" where
  "taat_term db lens term st =
     (case st of (scores, eng) \<Rightarrow>
        (let docs_with_term = get_documents_for_word db term
         in case calculate_idf eng db term of
              (idf, eng') \<Rightarrow>
                if idf = 0 then (scores, eng')
                else (fold (\<lambda>(doc_id, raw_tf) sc.
                              case lens doc_id of
                                None \<Rightarrow> sc
                              | Some len \<Rightarrow>
                                  if len = 0 then sc
                                  else (let term_count = py_int (raw_tf * real len);
                                            tf = calculate_tf term_count len;
                                            tfidf = tf * idf
                                        in dict_set sc doc_id (dict_get sc doc_id 0 + tfidf)))
                           docs_with_term scores,
                      eng')))"

text \<open>
  The authority weighting, written the same way in both strategies: when asked for and
  there are scores, divide by the maximum if it is positive, then multiply by
  \<open>1 + pagerank\<close>, an absent pagerank counting as 1.
\<close>

definition apply_pagerank :: "Database \<Rightarrow> bool \<Rightarrow> (int, real) dict \<Rightarrow> (int, real) dict" where
  "apply_pagerank db use_pagerank scores =
     (if use_pagerank \<and> scores \<noteq> []
      then (let pageranks = get_all_pageranks db;
                max_score = fold max (map snd (tl scores)) (snd (hd scores));
                scores1 = (if max_score > 0 then map (\<lambda>(doc_id, sc). (doc_id, sc / max_score)) scores
                           else scores)
            in map (\<lambda>(doc_id, sc).
                      (doc_id, sc * (1 + (case pageranks doc_id of None \<Rightarrow> 1 | Some pr \<Rightarrow> pr))))
                   scores1)
      else scores)"

text \<open>
  \<open>sorted(..., key=score, reverse=True)\<close> is stable, and so is \<open>sort_key\<close>; the cut to the
  page size and the snippets follow.
\<close>

definition format_results :: "SearchEngine \<Rightarrow> Database \<Rightarrow> string list \<Rightarrow> (int, real) dict \<Rightarrow>
    (int \<times> real \<times> string) list" where
  "format_results eng db query_terms scores =
     (let sorted_results = sort_key (\<lambda>(doc_id, sc). - sc) scores
      in concat (map (\<lambda>(doc_id, sc).
                        case get_document_content db doc_id of
                          None \<Rightarrow> []
                        | Some content \<Rightarrow>
                            if content \<noteq> []
                            then [(doc_id, sc, generate_snippet content query_terms (se_snippet_length eng))]
                            else [])
                     (take (se_results_per_page eng) sorted_results)))"

definition search_term_at_a_time :: "SearchEngine \<Rightarrow> Database \<Rightarrow> string \<Rightarrow> bool \<Rightarrow>
    (int \<times> real \<times> string) list \<times> SearchEngine" where
  "search_term_at_a_time eng db query use_pagerank =
     (let query_terms = tokenize query STOP_WORDS
      in if query_terms = [] then ([], eng)
         else (case fold (taat_term db (doc_lengths db)) query_terms ([], eng) of
                 (scores, eng') \<Rightarrow>
                   (format_results eng' db query_terms (apply_pagerank db use_pagerank scores), eng')))"

text \<open>Document-at-a-time: the idf of every query term first.\<close>

definition term_idfs :: "SearchEngine \<Rightarrow> Database \<Rightarrow> string list \<Rightarrow> (string \<rightharpoonup> real) \<times> SearchEngine" where
  "term_idfs eng db query_terms =
     fold (\<lambda>term (m, e). case calculate_idf e db term of (idf, e') \<Rightarrow> (m(term \<mapsto> idf), e'))
          query_terms (Map.empty, eng)"

text \<open>The score of one document: the loop over the query terms.\<close>

definition daat_doc_score :: "(string \<rightharpoonup> real) \<Rightarrow> string list \<Rightarrow> string list \<Rightarrow> py_error + real" where
  "daat_doc_score term_idf doc_tokens query_terms =
     foldE (\<lambda>term doc_score.
              case lookup term_idf term of
                Inl err \<Rightarrow> Inl err
              | Inr idf \<Rightarrow>
                  if idf = 0 then Inr doc_score
                  else (let term_count = count_list doc_tokens term
                        in if term_count > 0
                           then Inr (doc_score + calculate_tf (int term_count) (length doc_tokens) * idf)
                           else Inr doc_score))
           query_terms 0"

definition daat_scores :: "Database \<Rightarrow> (string \<rightharpoonup> real) \<Rightarrow> string list \<Rightarrow> py_error + (int, real) dict" where
  "daat_scores db term_idf query_terms =
     foldE (\<lambda>(doc_id, url, title) doc_scores.
              case get_document_content db doc_id of
                None \<Rightarrow> Inr doc_scores
              | Some content \<Rightarrow>
                  if content = [] then Inr doc_scores
                  else (let doc_tokens = tokenize content STOP_WORDS
                        in if length doc_tokens = 0 then Inr doc_scores
                           else (case daat_doc_score term_idf doc_tokens query_terms of
                                   Inl err \<Rightarrow> Inl err
                                 | Inr doc_score \<Rightarrow>
                                     if doc_score > 0 then Inr (dict_set doc_scores doc_id doc_score)
                                     else Inr doc_scores)))
           (get_all_documents db) []"

definition search_document_at_a_time :: "SearchEngine \<Rightarrow> Database \<Rightarrow> string \<Rightarrow> bool \<Rightarrow>
    py_error + ((int \<times> real \<times> string) list \<times> SearchEngine)" where
  "search_document_at_a_time eng db query use_pagerank =
     (let query_terms = tokenize query STOP_WORDS
      in if query_terms = [] then Inr ([], eng)
         else (case term_idfs eng db query_terms of
                 (term_idf, eng') \<Rightarrow>
                   (case daat_scores db term_idf query_terms of
                      Inl err \<Rightarrow> Inl err
                    | Inr doc_scores \<Rightarrow>
                        Inr (format_results eng' db query_terms (apply_pagerank db use_pagerank doc_scores),
                             eng'))))"

definition search :: "SearchEngine \<Rightarrow> Database \<Rightarrow> string \<Rightarrow> string \<Rightarrow> bool \<Rightarrow>
    py_error + ((int \<times> real \<times> string) list \<times> SearchEngine)" where
  "search eng db query method use_pagerank =
     (if lower method = ''term'' then Inr (search_term_at_a_time eng db query use_pagerank)
      else if lower method = ''document'' then search_document_at_a_time eng db query use_pagerank
      else Inr (search_term_at_a_time eng db query use_pagerank))"

section \<open>Concrete storages\<close>

text \<open>One document with the content \<open>quick fox\<close>, as \<open>index_document\<close> leaves it.\<close>

definition quick_fox_db :: Database where
  "quick_fox_db = index_document empty_db ''u'' ''t'' ''quick fox'' []"

text \<open>Two documents, the first linking to the second.\<close>

definition two_docs_db :: Database where
  "two_docs_db = empty_db \<lparr> documents := [(1, ''a'', ''A'', ''x''), (2, ''b'', ''B'', ''y'')],
      links := [(1, ''b'', Some 2)], documents_seq := 2 \<rparr>"

section \<open>Evaluation lemmas\<close>

lemma tokenize_quick_fox: "tokenize ''quick fox'' STOP_WORDS = [''quick'', ''fox'']"
  by code_simp

lemma tokenize_quick: "tokenize ''quick'' STOP_WORDS = [''quick'']"
  by code_simp

lemma snippet_quick_fox: "generate_snippet ''quick fox'' [''quick''] 150 = ''quick fox''"
  by code_simp

lemmas index_defs = index_document_def add_document_def get_document_id_def empty_db_def
  Counter_def positions_cache_def dict_set_def dict_get_def add_word_def get_word_id_def
  add_inverted_index_entry_def add_links_def add_link_def

lemma quick_fox_db_eq:
  "quick_fox_db =
     \<lparr> documents = [(1, ''u'', ''t'', ''quick fox'')],
       words = [(1, ''quick'', 1), (2, ''fox'', 1)], links = [],
       inverted_index = [(1, 1, 1, [0]), (2, 1, 1, [1])], pagerank = [],
       documents_seq = 1, words_seq = 2 \<rparr>"
  unfolding quick_fox_db_def
  by (simp add: index_defs tokenize_quick_fox enumerate_eq_zip upt_rec)

lemmas search_defs = search_term_at_a_time_def search_document_at_a_time_def se_init_def
  SEARCH_CONFIG_def taat_term_def doc_lengths_def get_all_documents_def get_document_content_def
  get_documents_for_word_def calculate_idf_def get_total_documents_def py_int_def calculate_tf_def
  dict_set_def dict_get_def apply_pagerank_def format_results_def term_idfs_def daat_scores_def
  daat_doc_score_def lookup_def

lemma taat_quick_fox:
  "search_term_at_a_time (se_init SEARCH_CONFIG quick_fox_db) quick_fox_db ''quick'' False =
     ([(1, 1, ''quick fox'')], (se_init SEARCH_CONFIG quick_fox_db) \<lparr> idf_cache := [''quick'' \<mapsto> 1] \<rparr>)"
  by (simp add: quick_fox_db_eq search_defs tokenize_quick_fox tokenize_quick snippet_quick_fox)

lemma daat_quick_fox:
  "search_document_at_a_time (se_init SEARCH_CONFIG quick_fox_db) quick_fox_db ''quick'' False =
     Inr ([(1, 1 / 2, ''quick fox'')], (se_init SEARCH_CONFIG quick_fox_db) \<lparr> idf_cache := [''quick'' \<mapsto> 1] \<rparr>)"
  by (simp add: quick_fox_db_eq search_defs tokenize_quick_fox tokenize_quick snippet_quick_fox)

lemma sqrt_times_less_1: "0 < c \<Longrightarrow> (sqrt x * c < 1) = (x * (c * c) < 1)"
proof -
  assume c: "0 < c"
  have "sqrt x * c = sqrt (x * (c * c))"
    using c by (simp add: real_sqrt_mult)
  then show ?thesis by simp
qed

lemmas pagerank_defs = run_mapreduce_def run_pregel_def mr_calculate_def mr_init_def pg_init_def
  pg_calculate_def PAGERANK_CONFIG_def empty_db_def get_all_documents_def
  calculate_pagerank_iteration_def calculate_convergence_def reduce_phase_def
  get_outgoing_links_def get_incoming_links_def truthy_def dict_set_def dict_get_def map_phase_def
  save_pageranks_def update_pagerank_def build_graph_def lookup_def new_graph_def new_vertex_def
  add_edge_def initialize_pagerank_def run_superstep_def collect_messages_def receive_def
  send_messages_def get_current_pagerank_def sqrt_times_less_1 Let_def

lemma mapreduce_two_docs:
  "run_mapreduce PAGERANK_CONFIG two_docs_db = Inr [(2, 111 / 800), (1, 3 / 40)]"
  by (simp add: two_docs_db_def pagerank_defs eval_nat_numeral)

lemma pregel_two_docs:
  "run_pregel PAGERANK_CONFIG two_docs_db = Inr [(1, 3 / 40), (2, 3 / 40)]"
  by (simp add: two_docs_db_def pagerank_defs eval_nat_numeral upt_rec enumerate_eq_zip)

section \<open>One superstep of the vertex engine\<close>

lemma dict_get_set: "dict_get (dict_set m k v) t d = (if t = k then v else dict_get m t d)"
  by (simp add: dict_get_def dict_set_def update_conv')

definition sent :: "PregelVertex list \<Rightarrow> (nat \<times> real) list" where
  "sent vs = concat (map (\<lambda>v. if active v then send_messages v else []) vs)"

definition inbox :: "(nat \<times> real) list \<Rightarrow> nat \<Rightarrow> real list" where
  "inbox msgs t = map snd (filter (\<lambda>(t', mv). t' = t) msgs)"

lemma deliver_inbox:
  "dict_get (fold (\<lambda>(target_id, message_value) m.
                     dict_set m target_id (dict_get m target_id [] @ [message_value])) msgs m0) t []
   = dict_get m0 t [] @ inbox msgs t"
  by (induction msgs arbitrary: m0) (auto simp: inbox_def dict_get_set)

lemma collect_fold:
  "fold (\<lambda>v msgs. if active v
             then fold (\<lambda>(target_id, message_value) m.
                          dict_set m target_id (dict_get m target_id [] @ [message_value]))
                       (send_messages v) msgs
             else msgs) vs m0
   = fold (\<lambda>(target_id, message_value) m.
                          dict_set m target_id (dict_get m target_id [] @ [message_value])) (sent vs) m0"
  by (induction vs arbitrary: m0) (auto simp: sent_def)

lemma collect_messages_inbox: "dict_get (collect_messages vs) t [] = inbox (sent vs) t"
proof -
  have "collect_messages vs = fold (\<lambda>(target_id, message_value) m.
           dict_set m target_id (dict_get m target_id [] @ [message_value])) (sent vs) []"
    unfolding collect_messages_def by (rule collect_fold)
  then show ?thesis
    by (simp add: deliver_inbox) (simp add: dict_get_def)
qed

lemma sum_inbox_all:
  assumes "\<forall>m \<in> set msgs. fst m < n"
  shows "(\<Sum>i\<leftarrow>[0..<n]. sum_list (inbox msgs i)) = sum_list (map snd msgs)"
  using assms
proof (induction msgs)
  case Nil
  then show ?case by (simp add: inbox_def)
next
  case (Cons m msgs)
  obtain t x where m: "m = (t, x)" by (cases m)
  have t: "t < n" using Cons.prems m by simp
  have "(\<Sum>i\<leftarrow>[0..<n]. sum_list (inbox (m # msgs) i))
      = (\<Sum>i\<leftarrow>[0..<n]. (if t = i then x else 0) + sum_list (inbox msgs i))"
    by (rule arg_cong [where f = sum_list]) (auto simp: inbox_def m)
  also have "\<dots> = (\<Sum>i\<leftarrow>[0..<n]. (if t = i then x else 0)) + (\<Sum>i\<leftarrow>[0..<n]. sum_list (inbox msgs i))"
    by (simp add: sum_list_addf)
  also have "(\<Sum>i\<leftarrow>[0..<n]. (if t = i then x else (0::real))) = x"
    using t by (simp add: interv_sum_list_conv_sum_set_nat)
  finally show ?case using Cons by (simp add: m)
qed

lemma sum_send_messages:
  "sum_list (map snd (send_messages v)) = (if outgoing_edges v = [] then 0 else vvalue v)"
  by (simp add: send_messages_def Let_def comp_def sum_list_replicate map_replicate_const)

lemma sum_sent:
  "sum_list (map snd (sent vs)) = (\<Sum>v\<leftarrow>vs. if active v \<and> outgoing_edges v \<noteq> [] then vvalue v else 0)"
  by (induction vs) (auto simp: sent_def sum_send_messages)


definition wf_graph :: "SimplePregelGraph \<Rightarrow> bool" where
  "wf_graph g = (map vid (vertices g) = [0..<num_vertices g]
                 \<and> (\<forall>v \<in> set (vertices g). \<forall>t \<in> set (outgoing_edges v). t < num_vertices g))"

lemma wf_graph_length: "wf_graph g \<Longrightarrow> length (vertices g) = num_vertices g"
  unfolding wf_graph_def by (metis length_map length_upt minus_nat.diff_0)

lemma sent_targets:
  assumes "\<forall>v \<in> set vs. \<forall>t \<in> set (outgoing_edges v). t < n"
  shows "\<forall>m \<in> set (sent vs). fst m < n"
  using assms by (auto simp: sent_def send_messages_def Let_def split: if_splits)

lemma vvalue_receive:
  "vvalue (receive d n msgs v) = (1 - d) / real n + d * sum_list (dict_get msgs (vid v) [])"
  by (simp add: receive_def Let_def)

lemma outgoing_receive: "outgoing_edges (receive d n msgs v) = outgoing_edges v"
  by (simp add: receive_def Let_def)

lemma vid_receive: "vid (receive d n msgs v) = vid v"
  by (simp add: receive_def Let_def)

lemma run_superstep_ok:
  assumes "0 < num_vertices g"
  shows "run_superstep d g =
     Inr (g \<lparr> vertices := map (receive d (num_vertices g) (collect_messages (vertices g))) (vertices g),
              superstep := superstep g + 1, messages := collect_messages (vertices g) \<rparr>,
          0 < length (filter active (map (receive d (num_vertices g) (collect_messages (vertices g))) (vertices g))))"
  using assms by (simp add: run_superstep_def Let_def filter_map)

lemma sum_list_const_add:
  "(\<Sum>x\<leftarrow>xs. (a::real) + d * f x) = real (length xs) * a + d * (\<Sum>x\<leftarrow>xs. f x)"
  by (induction xs) (simp_all add: algebra_simps)

lemma superstep_sum:
  assumes wf: "wf_graph g" and n: "0 < num_vertices g"
    and vs': "vs' = map (receive d (num_vertices g) (collect_messages (vertices g))) (vertices g)"
  shows "sum_list (map vvalue vs')
       = (1 - d) + d * (\<Sum>v\<leftarrow>vertices g. if active v \<and> outgoing_edges v \<noteq> [] then vvalue v else 0)"
proof -
  let ?n = "num_vertices g"
  let ?M = "sent (vertices g)"
  have len: "length (vertices g) = ?n" using wf by (rule wf_graph_length)
  have tg: "\<forall>m \<in> set ?M. fst m < ?n"
    using wf unfolding wf_graph_def by (intro sent_targets) simp
  have "sum_list (map vvalue vs')
      = (\<Sum>v\<leftarrow>vertices g. (1 - d) / real ?n + d * sum_list (inbox ?M (vid v)))"
    unfolding vs' by (simp add: comp_def vvalue_receive collect_messages_inbox)
  also have "\<dots> = real ?n * ((1 - d) / real ?n) + d * (\<Sum>v\<leftarrow>vertices g. sum_list (inbox ?M (vid v)))"
    by (simp add: sum_list_const_add len)
  also have "(\<Sum>v\<leftarrow>vertices g. sum_list (inbox ?M (vid v)))
      = (\<Sum>i\<leftarrow>map vid (vertices g). sum_list (inbox ?M i))"
    by (simp add: comp_def)
  also have "\<dots> = (\<Sum>i\<leftarrow>[0..<?n]. sum_list (inbox ?M i))"
    using wf unfolding wf_graph_def by simp
  also have "\<dots> = sum_list (map snd ?M)"
    using tg by (rule sum_inbox_all)
  also have "\<dots> = (\<Sum>v\<leftarrow>vertices g. if active v \<and> outgoing_edges v \<noteq> [] then vvalue v else 0)"
    by (rule sum_sent)
  finally show ?thesis using n by simp
qed

lemma sum_list_eq_pointwise:
  fixes f g :: "'a \<Rightarrow> real"
  assumes "\<forall>x \<in> set xs. f x \<le> g x" and "sum_list (map f xs) = sum_list (map g xs)"
  shows "\<forall>x \<in> set xs. f x = g x"
  using assms
proof (induction xs)
  case Nil
  then show ?case by simp
next
  case (Cons x xs)
  have le: "sum_list (map f xs) \<le> sum_list (map g xs)"
    using Cons.prems(1) by (intro sum_list_mono) simp
  have fx: "f x \<le> g x" using Cons.prems(1) by simp
  from Cons.prems(2) have "f x + sum_list (map f xs) = g x + sum_list (map g xs)" by simp
  with le fx have "f x = g x" and "sum_list (map f xs) = sum_list (map g xs)" by linarith+
  with Cons.IH Cons.prems(1) show ?case by simp
qed


definition total_value :: "SimplePregelGraph \<Rightarrow> real" where
  "total_value g = sum_list (map vvalue (vertices g))"

definition pregel_inv :: "SimplePregelGraph \<Rightarrow> bool" where
  "pregel_inv g = (wf_graph g \<and> 0 < num_vertices g \<and> (\<forall>v \<in> set (vertices g). 0 < vvalue v)
                   \<and> total_value g \<le> 1)"

fun pg_supersteps :: "real \<Rightarrow> nat \<Rightarrow> SimplePregelGraph \<Rightarrow> py_error + SimplePregelGraph" where
  "pg_supersteps d 0 g = Inr g"
| "pg_supersteps d (Suc k) g =
     (case pg_supersteps d k g of
        Inl err \<Rightarrow> Inl err
      | Inr g' \<Rightarrow> (case run_superstep d g' of Inl err \<Rightarrow> Inl err | Inr (g'', act) \<Rightarrow> Inr g''))"

lemma sent_nonneg:
  assumes "\<forall>v \<in> set vs. 0 \<le> vvalue v"
  shows "\<forall>m \<in> set (sent vs). 0 \<le> snd m"
  using assms by (auto simp: sent_def send_messages_def Let_def split: if_splits)

lemma inbox_nonneg:
  assumes "\<forall>m \<in> set msgs. 0 \<le> snd m"
  shows "0 \<le> sum_list (inbox msgs t)"
  using assms by (intro sum_list_nonneg) (auto simp: inbox_def)

lemma superstep_inv:
  assumes d: "0 < d" "d < 1" and inv: "pregel_inv g"
  shows "\<exists>g' act. run_superstep d g = Inr (g', act) \<and> pregel_inv g'
           \<and> map outgoing_edges (vertices g') = map outgoing_edges (vertices g)
           \<and> (total_value g' = 1 \<longrightarrow> (\<forall>v \<in> set (vertices g). outgoing_edges v \<noteq> []))"
proof -
  let ?n = "num_vertices g"
  let ?vs' = "map (receive d ?n (collect_messages (vertices g))) (vertices g)"
  let ?g' = "g \<lparr> vertices := ?vs', superstep := superstep g + 1, messages := collect_messages (vertices g) \<rparr>"
  let ?f = "\<lambda>v. if active v \<and> outgoing_edges v \<noteq> [] then vvalue v else 0"
  from inv have wf: "wf_graph g" and n: "0 < ?n" and pos: "\<forall>v \<in> set (vertices g). 0 < vvalue v"
    and le1: "total_value g \<le> 1" by (auto simp: pregel_inv_def)
  have run: "run_superstep d g = Inr (?g', 0 < length (filter active ?vs'))"
    using n by (rule run_superstep_ok)
  have sum: "sum_list (map vvalue ?vs') = (1 - d) + d * sum_list (map ?f (vertices g))"
    using wf n by (rule superstep_sum) simp
  have fle: "\<forall>v \<in> set (vertices g). ?f v \<le> vvalue v"
    using pos by (auto intro: less_imp_le)
  have act_le: "sum_list (map ?f (vertices g)) \<le> total_value g"
    unfolding total_value_def using fle by (intro sum_list_mono) simp
  have "d * sum_list (map ?f (vertices g)) \<le> d * 1"
    using act_le le1 d by (intro mult_left_mono) auto
  then have le1': "total_value ?g' \<le> 1"
    unfolding total_value_def using sum by simp
  have nonneg: "\<forall>m \<in> set (sent (vertices g)). 0 \<le> snd m"
    using pos by (intro sent_nonneg) (auto intro: less_imp_le)
  have pos': "\<forall>v \<in> set ?vs'. 0 < vvalue v"
  proof
    fix v assume "v \<in> set ?vs'"
    then obtain u where v: "v = receive d ?n (collect_messages (vertices g)) u" by auto
    have a: "0 < (1 - d) / real ?n" using d n by simp
    have "0 \<le> d * sum_list (inbox (sent (vertices g)) (vid u))"
      using d inbox_nonneg [OF nonneg] by simp
    with a show "0 < vvalue v"
      unfolding v vvalue_receive collect_messages_inbox by linarith
  qed
  have wf': "wf_graph ?g'"
    using wf unfolding wf_graph_def by (simp add: comp_def vid_receive outgoing_receive)
  have edges: "map outgoing_edges (vertices ?g') = map outgoing_edges (vertices g)"
    by (simp add: comp_def outgoing_receive)
  have dangling: "\<forall>v \<in> set (vertices g). outgoing_edges v \<noteq> []" if eq1: "total_value ?g' = 1"
  proof -
    from eq1 sum have "d * sum_list (map ?f (vertices g)) = d * 1"
      unfolding total_value_def by simp
    with d have "sum_list (map ?f (vertices g)) = 1" by simp
    with act_le le1 have "sum_list (map ?f (vertices g)) = sum_list (map vvalue (vertices g))"
      unfolding total_value_def by linarith
    with fle have "\<forall>v \<in> set (vertices g). ?f v = vvalue v"
      by (rule sum_list_eq_pointwise)
    with pos show ?thesis by (metis less_irrefl)
  qed
  have "pregel_inv ?g'"
    unfolding pregel_inv_def using wf' n pos' le1' by simp
  with run edges dangling show ?thesis by blast
qed

lemma supersteps_inv:
  assumes d: "0 < d" "d < 1" and inv: "pregel_inv g"
  shows "\<exists>g'. pg_supersteps d k g = Inr g' \<and> pregel_inv g'
           \<and> map outgoing_edges (vertices g') = map outgoing_edges (vertices g)
           \<and> (0 < k \<longrightarrow> total_value g' = 1 \<longrightarrow> (\<forall>v \<in> set (vertices g). outgoing_edges v \<noteq> []))"
proof (induction k)
  case 0
  then show ?case using inv by simp
next
  case (Suc k)
  then obtain g1 where
    steps: "pg_supersteps d k g = Inr g1" and inv1: "pregel_inv g1"
    and e1: "map outgoing_edges (vertices g1) = map outgoing_edges (vertices g)"
    by blast
  from superstep_inv [OF d inv1] obtain g' act where
    run: "run_superstep d g1 = Inr (g', act)" and inv': "pregel_inv g'"
    and e': "map outgoing_edges (vertices g') = map outgoing_edges (vertices g1)"
    and dang': "total_value g' = 1 \<longrightarrow> (\<forall>v \<in> set (vertices g1). outgoing_edges v \<noteq> [])"
    by blast
  have "set (map outgoing_edges (vertices g1)) = set (map outgoing_edges (vertices g))"
    using e1 by simp
  then have same: "(\<forall>v \<in> set (vertices g1). outgoing_edges v \<noteq> []) = (\<forall>v \<in> set (vertices g). outgoing_edges v \<noteq> [])"
    by (metis (no_types, lifting) image_iff list.set_map)
  from steps run inv' e' e1 dang' same show ?case by simp
qed

section \<open>The graph built from the storage\<close>

lemma id_to_index_sound:
  "fold (\<lambda>(i, doc_id) m. m(doc_id \<mapsto> i)) (enumerate k ids) m0 d = Some i \<Longrightarrow>
   m0 d = Some i \<or> (k \<le> i \<and> i < k + length ids \<and> ids ! (i - k) = d)"
proof (induction ids arbitrary: i rule: rev_induct)
  case Nil
  then show ?case by simp
next
  case (snoc x xs)
  show ?case
  proof (cases "d = x")
    case True
    with snoc.prems have "i = k + length xs" by (simp add: enumerate_append_eq fun_upd_same fun_upd_other del: fun_upd_apply)
    with True show ?thesis by simp
  next
    case False
    with snoc.prems have "fold (\<lambda>(i, doc_id) m. m(doc_id \<mapsto> i)) (enumerate k xs) m0 d = Some i"
      by (simp add: enumerate_append_eq fun_upd_same fun_upd_other del: fun_upd_apply)
    from snoc.IH [OF this] show ?thesis
      by (auto simp: nth_append)
  qed
qed

lemma id_to_index_dom:
  "dom (fold (\<lambda>(i, doc_id) m. m(doc_id \<mapsto> i)) (enumerate k ids) m0) = set ids \<union> dom m0"
  by (induction ids rule: rev_induct) (auto simp: enumerate_append_eq fun_upd_same fun_upd_other simp del: fun_upd_apply)

lemma id_to_index_distinct:
  "distinct ids \<Longrightarrow> j < length ids \<Longrightarrow>
   fold (\<lambda>(i, doc_id) m. m(doc_id \<mapsto> i)) (enumerate k ids) m0 (ids ! j) = Some (k + j)"
proof (induction ids rule: rev_induct)
  case Nil
  then show ?case by simp
next
  case (snoc x xs)
  show ?case
  proof (cases "j = length xs")
    case True
    then show ?thesis by (simp add: enumerate_append_eq fun_upd_same fun_upd_other del: fun_upd_apply)
  next
    case False
    with snoc.prems have j: "j < length xs" by simp
    then have "xs ! j \<in> set xs" by simp
    with snoc.prems have ne: "xs ! j \<noteq> x" by auto
    have "distinct xs" using snoc.prems by simp
    from snoc.IH [OF this j] ne j show ?thesis
      by (simp add: enumerate_append_eq nth_append fun_upd_same fun_upd_other del: fun_upd_apply)
  qed
qed

lemma index_to_id_nth:
  "j < length ids \<Longrightarrow>
   fold (\<lambda>(i, doc_id) m. m(i \<mapsto> doc_id)) (enumerate k ids) m0 (k + j) = Some (ids ! j)"
proof (induction ids rule: rev_induct)
  case Nil
  then show ?case by simp
next
  case (snoc x xs)
  show ?case
  proof (cases "j = length xs")
    case True
    then show ?thesis by (simp add: enumerate_append_eq fun_upd_same fun_upd_other del: fun_upd_apply)
  next
    case False
    with snoc.prems have j: "j < length xs" by simp
    with snoc.IH show ?thesis by (simp add: enumerate_append_eq nth_append fun_upd_same fun_upd_other del: fun_upd_apply)
  qed
qed

text \<open>
  The shape of a graph: \<open>n\<close> vertices numbered by their index, vertex \<open>i\<close> with the
  outgoing edges \<open>E i\<close>.
\<close>

definition shape :: "SimplePregelGraph \<Rightarrow> nat \<Rightarrow> (nat \<Rightarrow> nat list) \<Rightarrow> bool" where
  "shape g n E = (num_vertices g = n \<and> length (vertices g) = n
                  \<and> (\<forall>i < n. vid (vertices g ! i) = i \<and> outgoing_edges (vertices g ! i) = E i))"

lemma shape_new_graph: "shape (new_graph n) n (\<lambda>i. [])"
  by (simp add: shape_def new_graph_def new_vertex_def)

lemma shape_add_edge:
  assumes "shape g n E" and "s < n" and "t < n"
  shows "shape (add_edge g s t) n (E(s := E s @ [t]))"
  using assms by (auto simp: shape_def add_edge_def nth_list_update)

definition link_targets :: "(int \<rightharpoonup> nat) \<Rightarrow> (int option \<times> string) list \<Rightarrow> nat list" where
  "link_targets m ls = map (\<lambda>l. the (m (the (fst l)))) (filter (\<lambda>l. truthy (fst l) \<and> the (fst l) \<in> dom m) ls)"

lemma shape_inner:
  assumes "shape g n E" and "s < n" and "\<forall>d i. m d = Some i \<longrightarrow> i < n"
  shows "\<exists>g'. foldE (\<lambda>(target_doc_id, u) g2.
                       if truthy target_doc_id \<and> the target_doc_id \<in> dom m
                       then (case lookup m (the target_doc_id) of
                               Inl err \<Rightarrow> Inl err
                             | Inr target_idx \<Rightarrow> Inr (add_edge g2 s target_idx))
                       else Inr g2) ls g = Inr g'
              \<and> shape g' n (E(s := E s @ link_targets m ls))"
  using assms(1)
proof (induction ls arbitrary: g E)
  case Nil
  then show ?case by (simp add: link_targets_def)
next
  case (Cons l ls)
  obtain t u where l: "l = (t, u)" by (cases l)
  show ?case
  proof (cases "truthy t \<and> the t \<in> dom m")
    case True
    then obtain i where i: "m (the t) = Some i" by auto
    with assms(3) have "i < n" by blast
    with Cons.prems assms(2) have sh: "shape (add_edge g s i) n (E(s := E s @ [i]))"
      by (intro shape_add_edge)
    have eq: "(E(s := E s @ [i]))(s := (E(s := E s @ [i])) s @ link_targets m ls)
        = E(s := E s @ link_targets m (l # ls))"
      using True l i by (simp add: link_targets_def)
    from Cons.IH [OF sh] obtain g' where
      "foldE (\<lambda>(target_doc_id, u) g2.
                       if truthy target_doc_id \<and> the target_doc_id \<in> dom m
                       then (case lookup m (the target_doc_id) of
                               Inl err \<Rightarrow> Inl err
                             | Inr target_idx \<Rightarrow> Inr (add_edge g2 s target_idx))
                       else Inr g2) ls (add_edge g s i) = Inr g'"
      and "shape g' n ((E(s := E s @ [i]))(s := (E(s := E s @ [i])) s @ link_targets m ls))"
      by blast
    with eq True i l show ?thesis
      by (simp add: lookup_def fun_upd_same fun_upd_other del: fun_upd_apply)
  next
    case False
    with Cons.IH [OF Cons.prems] l show ?thesis
      by (auto simp: link_targets_def)
  qed
qed


lemma shape_cong: "shape g n E \<Longrightarrow> (\<And>i. i < n \<Longrightarrow> E i = E' i) \<Longrightarrow> shape g n E'"
  by (simp add: shape_def)

lemma shape_outer:
  assumes m: "\<forall>d i. m d = Some i \<longrightarrow> i < n"
  shows "set js \<subseteq> dom m \<Longrightarrow> shape g n E \<Longrightarrow>
         \<exists>g'. build_graph db js m g = Inr g'
           \<and> shape g' n (\<lambda>i. E i @ concat (map (\<lambda>doc. link_targets m (get_outgoing_links db doc))
                                               (filter (\<lambda>doc. m doc = Some i) js)))"
proof (induction js arbitrary: g E)
  case Nil
  then show ?case by (simp add: build_graph_def)
next
  case (Cons doc js)
  from Cons.prems(1) obtain s where s: "m doc = Some s" by auto
  with m have sn: "s < n" by blast
  let ?lt = "link_targets m (get_outgoing_links db doc)"
  from shape_inner [OF Cons.prems(2) sn m, of "get_outgoing_links db doc"] obtain g1 where
    inner: "foldE (\<lambda>(target_doc_id, u) g2.
                       if truthy target_doc_id \<and> the target_doc_id \<in> dom m
                       then (case lookup m (the target_doc_id) of
                               Inl err \<Rightarrow> Inl err
                             | Inr target_idx \<Rightarrow> Inr (add_edge g2 s target_idx))
                       else Inr g2) (get_outgoing_links db doc) g = Inr g1"
    and sh1: "shape g1 n (E(s := E s @ ?lt))"
    by blast
  have sub: "set js \<subseteq> dom m" using Cons.prems(1) by simp
  from Cons.IH [OF sub sh1] obtain g' where
    rest: "build_graph db js m g1 = Inr g'"
    and sh': "shape g' n (\<lambda>i. (E(s := E s @ ?lt)) i @ concat (map (\<lambda>doc. link_targets m (get_outgoing_links db doc))
                                               (filter (\<lambda>doc. m doc = Some i) js)))"
    by blast
  have run: "build_graph db (doc # js) m g = Inr g'"
    using inner rest s unfolding build_graph_def by (simp add: lookup_def)
  have "shape g' n (\<lambda>i. E i @ concat (map (\<lambda>doc. link_targets m (get_outgoing_links db doc))
                                               (filter (\<lambda>doc. m doc = Some i) (doc # js))))"
    using sh' by (rule shape_cong) (use s in auto)
  with run show ?case by blast
qed

lemma filter_eq_distinct: "distinct xs \<Longrightarrow> a \<in> set xs \<Longrightarrow> filter (\<lambda>x. x = a) xs = [a]"
proof (induction xs)
  case Nil
  then show ?case by simp
next
  case (Cons x xs)
  show ?case
  proof (cases "x = a")
    case True
    with Cons.prems have "a \<notin> set xs" by simp
    then have "filter (\<lambda>x. x = a) xs = []" by (auto simp: filter_empty_conv)
    with True show ?thesis by simp
  next
    case False
    with Cons show ?thesis by simp
  qed
qed

definition id_index :: "int list \<Rightarrow> (int \<rightharpoonup> nat)" where
  "id_index ids = fold (\<lambda>(i, doc_id) m. m(doc_id \<mapsto> i)) (enumerate 0 ids) Map.empty"

lemma id_index_Some: "id_index ids d = Some i \<Longrightarrow> i < length ids \<and> ids ! i = d"
  unfolding id_index_def by (drule id_to_index_sound) simp

lemma id_index_nth: "distinct ids \<Longrightarrow> j < length ids \<Longrightarrow> id_index ids (ids ! j) = Some j"
  unfolding id_index_def using id_to_index_distinct [of ids j 0 Map.empty] by simp

lemma id_index_dom: "dom (id_index ids) = set ids"
  unfolding id_index_def by (simp add: id_to_index_dom)

lemma filter_id_index:
  assumes "distinct ids" and "i < length ids"
  shows "filter (\<lambda>doc. id_index ids doc = Some i) ids = [ids ! i]"
proof -
  have "filter (\<lambda>doc. id_index ids doc = Some i) ids = filter (\<lambda>doc. doc = ids ! i) ids"
  proof (rule filter_cong [OF refl])
    fix doc assume "doc \<in> set ids"
    show "(id_index ids doc = Some i) = (doc = ids ! i)"
      using id_index_Some [of ids doc i] id_index_nth [OF assms] by auto
  qed
  also have "\<dots> = [ids ! i]"
    using assms by (intro filter_eq_distinct) simp_all
  finally show ?thesis .
qed

lemma build_graph_shape:
  assumes "distinct ids"
  shows "\<exists>g. build_graph db ids (id_index ids) (new_graph (length ids)) = Inr g
           \<and> shape g (length ids) (\<lambda>i. link_targets (id_index ids) (get_outgoing_links db (ids ! i)))"
proof -
  have m: "\<forall>d i. id_index ids d = Some i \<longrightarrow> i < length ids"
    using id_index_Some by blast
  have sub: "set ids \<subseteq> dom (id_index ids)" by (simp add: id_index_dom)
  from shape_outer [OF m sub shape_new_graph, of db] obtain g where
    run: "build_graph db ids (id_index ids) (new_graph (length ids)) = Inr g"
    and sh: "shape g (length ids) (\<lambda>i. [] @ concat (map (\<lambda>doc. link_targets (id_index ids) (get_outgoing_links db doc))
                                               (filter (\<lambda>doc. id_index ids doc = Some i) ids)))"
    by blast
  have "shape g (length ids) (\<lambda>i. link_targets (id_index ids) (get_outgoing_links db (ids ! i)))"
    using sh by (rule shape_cong) (simp add: filter_id_index [OF assms])
  with run show ?thesis by blast
qed

lemma link_targets_bound:
  "t \<in> set (link_targets (id_index ids) ls) \<Longrightarrow> t < length ids"
  unfolding link_targets_def using id_index_Some by (auto simp: dom_def) 

lemma shape_wf:
  assumes "shape g n E" and "\<forall>i < n. \<forall>t \<in> set (E i). t < n"
  shows "wf_graph g"
proof -
  from assms(1) have len: "length (vertices g) = n" and num: "num_vertices g = n"
    and nth: "\<forall>i < n. vid (vertices g ! i) = i \<and> outgoing_edges (vertices g ! i) = E i"
    by (auto simp: shape_def)
  have "map vid (vertices g) = [0..<n]"
    using len nth by (intro nth_equalityI) simp_all
  moreover have "\<forall>v \<in> set (vertices g). \<forall>t \<in> set (outgoing_edges v). t < n"
  proof
    fix v assume "v \<in> set (vertices g)"
    then obtain i where "i < n" "v = vertices g ! i"
      using len by (metis in_set_conv_nth)
    with nth assms(2) show "\<forall>t \<in> set (outgoing_edges v). t < n" by simp
  qed
  ultimately show ?thesis by (simp add: wf_graph_def num)
qed

section \<open>One iteration of the map/reduce engine\<close>

definition contributions :: "PageRankMapReduce \<Rightarrow> (int, real) dict \<Rightarrow> (int \<times> real) list" where
  "contributions e pr = concat (map (\<lambda>(doc_id, rank). map_phase e doc_id rank) pr)"

definition credit :: "(int \<times> real) list \<Rightarrow> int \<Rightarrow> real" where
  "credit cs t = sum_list (map snd (filter (\<lambda>(t', c). t' = t) cs))"

lemma credit_Nil: "credit [] t = 0"
  by (simp add: credit_def)

lemma credit_Cons: "credit ((k, c) # cs) t = (if k = t then c else 0) + credit cs t"
  by (simp add: credit_def)

lemma credit_append: "credit (xs @ ys) t = credit xs t + credit ys t"
  by (simp add: credit_def)

lemma dict_keys_set: "fst ` set (dict_set m k v) = insert k (fst ` set m)"
  by (simp add: dict_set_def dom_update)

lemma dict_distinct_set: "distinct (map fst m) \<Longrightarrow> distinct (map fst (dict_set m k v))"
  by (simp add: dict_set_def distinct_update)

lemma reduce_fold_get:
  "dict_get (fold (\<lambda>(doc_id, contribution) reduced.
             dict_set reduced doc_id (dict_get reduced doc_id 0 + contribution)) cs acc) t 0
   = dict_get acc t 0 + credit cs t"
  by (induction cs arbitrary: acc) (auto simp: credit_Nil credit_Cons dict_get_set)

lemma reduce_fold_keys:
  "fst ` set (fold (\<lambda>(doc_id, contribution) reduced.
             dict_set reduced doc_id (dict_get reduced doc_id 0 + contribution)) cs acc)
   = fst ` set cs \<union> fst ` set acc"
proof (induction cs arbitrary: acc)
  case Nil
  then show ?case by simp
next
  case (Cons c cs)
  obtain k v where c: "c = (k, v)" by (cases c)
  show ?case
    using Cons.IH [of "dict_set acc k (dict_get acc k 0 + v)"]
    by (simp add: c dict_keys_set)
qed

lemma reduce_fold_distinct:
  "distinct (map fst acc) \<Longrightarrow>
   distinct (map fst (fold (\<lambda>(doc_id, contribution) reduced.
             dict_set reduced doc_id (dict_get reduced doc_id 0 + contribution)) cs acc))"
  by (induction cs arbitrary: acc) (auto simp: dict_distinct_set)

lemma reduce_phase_get: "dict_get (reduce_phase cs) t 0 = credit cs t"
  unfolding reduce_phase_def by (simp add: reduce_fold_get) (simp add: dict_get_def)

lemma reduce_phase_keys: "fst ` set (reduce_phase cs) = fst ` set cs"
  unfolding reduce_phase_def by (simp add: reduce_fold_keys)

lemma reduce_phase_distinct: "distinct (map fst (reduce_phase cs))"
  unfolding reduce_phase_def by (rule reduce_fold_distinct) simp

lemma combine_get:
  "distinct ids \<Longrightarrow>
   dict_get (fold (\<lambda>doc_id nr. dict_set nr doc_id (f (dict_get nr doc_id 0))) ids nr) k (0::real)
   = (if k \<in> set ids then f (dict_get nr k 0) else dict_get nr k 0)"
proof (induction ids arbitrary: nr)
  case Nil
  then show ?case by simp
next
  case (Cons i ids)
  then have d: "distinct ids" and ni: "i \<notin> set ids" by simp_all
  show ?case
    using Cons.IH [OF d, of "dict_set nr i (f (dict_get nr i 0))"] ni
    by (auto simp: dict_get_set)
qed

lemma combine_keys:
  "fst ` set (fold (\<lambda>doc_id nr. dict_set nr doc_id (f (dict_get nr doc_id 0))) ids nr)
   = set ids \<union> fst ` set nr"
proof (induction ids arbitrary: nr)
  case Nil
  then show ?case by simp
next
  case (Cons i ids)
  show ?case
    using Cons.IH [of "dict_set nr i (f (dict_get nr i 0))"]
    by (simp add: dict_keys_set)
qed

lemma combine_distinct:
  "distinct (map fst nr) \<Longrightarrow>
   distinct (map fst (fold (\<lambda>doc_id nr. dict_set nr doc_id (f (dict_get nr doc_id 0))) ids nr))"
  by (induction ids arbitrary: nr) (auto simp: dict_distinct_set)

lemma iteration_ok:
  assumes "0 < mr_num_documents e"
  shows "calculate_pagerank_iteration e pr =
     Inr (fold (\<lambda>doc_id nr. dict_set nr doc_id
                  ((\<lambda>r. (1 - mr_damping_factor e) / real (mr_num_documents e) + r * mr_damping_factor e)
                     (dict_get nr doc_id 0)))
               (mr_doc_ids e) (reduce_phase (contributions e pr)))"
  using assms by (simp add: calculate_pagerank_iteration_def contributions_def Let_def)

lemma sum_dict_restrict:
  fixes G :: "int \<Rightarrow> real \<Rightarrow> real"
  assumes "distinct (map fst pr)" and "distinct ids" and "set ids \<subseteq> fst ` set pr"
    and "\<forall>(k, v) \<in> set pr. k \<notin> set ids \<longrightarrow> G k v = 0"
  shows "(\<Sum>(k, v)\<leftarrow>pr. G k v) = (\<Sum>i\<leftarrow>ids. G i (dict_get pr i 0))"
  using assms
proof (induction pr arbitrary: ids)
  case Nil
  then show ?case by simp
next
  case (Cons p pr)
  obtain k v where p: "p = (k, v)" by (cases p)
  from Cons.prems(1) p have dk: "distinct (map fst pr)" and kn: "k \<notin> fst ` set pr" by auto
  have get_other: "dict_get (p # pr) i 0 = dict_get pr i 0" if "i \<noteq> k" for i
    using that by (simp add: dict_get_def p)
  show ?case
  proof (cases "k \<in> set ids")
    case True
    let ?ids' = "remove1 k ids"
    have d': "distinct ?ids'" using Cons.prems(2) by simp
    have s': "set ?ids' = set ids - {k}" using Cons.prems(2) by simp
    have sub': "set ?ids' \<subseteq> fst ` set pr"
      using Cons.prems(3) s' p by auto
    have z': "\<forall>(k', v') \<in> set pr. k' \<notin> set ?ids' \<longrightarrow> G k' v' = 0"
    proof (clarify)
      fix k' v' assume in_pr: "(k', v') \<in> set pr" and "k' \<notin> set ?ids'"
      moreover from in_pr kn have "k' \<noteq> k" by force
      ultimately have "k' \<notin> set ids" using s' by simp
      with Cons.prems(4) in_pr show "G k' v' = 0" by auto
    qed
    from Cons.IH [OF dk d' sub' z'] have ih: "(\<Sum>(k, v)\<leftarrow>pr. G k v) = (\<Sum>i\<leftarrow>?ids'. G i (dict_get pr i 0))" .
    have "(\<Sum>i\<leftarrow>ids. G i (dict_get (p # pr) i 0))
        = G k (dict_get (p # pr) k 0) + (\<Sum>i\<leftarrow>?ids'. G i (dict_get (p # pr) i 0))"
      using True by (rule sum_list_map_remove1)
    also have "dict_get (p # pr) k 0 = v" by (simp add: dict_get_def p)
    also have "(\<Sum>i\<leftarrow>?ids'. G i (dict_get (p # pr) i 0)) = (\<Sum>i\<leftarrow>?ids'. G i (dict_get pr i 0))"
      by (rule arg_cong [where f = sum_list], rule map_cong [OF refl]) (simp add: s' get_other)
    finally show ?thesis using ih p by simp
  next
    case False
    have sub': "set ids \<subseteq> fst ` set pr"
      using Cons.prems(3) False p by auto
    have z': "\<forall>(k', v') \<in> set pr. k' \<notin> set ids \<longrightarrow> G k' v' = 0"
      using Cons.prems(4) by auto
    from Cons.IH [OF dk Cons.prems(2) sub' z'] have ih: "(\<Sum>(k, v)\<leftarrow>pr. G k v) = (\<Sum>i\<leftarrow>ids. G i (dict_get pr i 0))" .
    have "G k v = 0" using Cons.prems(4) False p by auto
    moreover have "(\<Sum>i\<leftarrow>ids. G i (dict_get (p # pr) i 0)) = (\<Sum>i\<leftarrow>ids. G i (dict_get pr i 0))"
      by (rule arg_cong [where f = sum_list], rule map_cong [OF refl]) (metis False get_other)
    ultimately show ?thesis using ih p by simp
  qed
qed


definition payout :: "PageRankMapReduce \<Rightarrow> int \<Rightarrow> real \<Rightarrow> real" where
  "payout e doc_id rank = sum_list (map snd (map_phase e doc_id rank))"

lemma payout_eq:
  "payout e doc_id rank =
     (case mr_outgoing_links e doc_id of None \<Rightarrow> 0 | Some outgoing \<Rightarrow> if outgoing = [] then 0 else rank)"
  by (simp add: payout_def map_phase_def Let_def comp_def sum_list_replicate map_replicate_const
      split: option.splits)

lemma sum_contributions: "sum_list (map snd (contributions e pr)) = (\<Sum>(k, v)\<leftarrow>pr. payout e k v)"
  by (induction pr) (auto simp: contributions_def payout_def)

lemma credit_contributions:
  "credit (contributions e pr) t = (\<Sum>(k, v)\<leftarrow>pr. credit (map_phase e k v) t)"
  by (induction pr) (auto simp: contributions_def credit_Nil credit_append)

lemma sum_list_delta:
  "distinct ids \<Longrightarrow> (\<Sum>i\<leftarrow>ids. if k = i then c else (0::real)) = (if k \<in> set ids then c else 0)"
  by (induction ids) auto

lemma credit_sum_le:
  assumes "\<forall>c \<in> set cs. 0 \<le> snd c" and "distinct ids"
  shows "(\<Sum>i\<leftarrow>ids. credit cs i) \<le> sum_list (map snd cs)"
  using assms(1)
proof (induction cs)
  case Nil
  then show ?case by (simp add: credit_Nil)
next
  case (Cons c cs)
  obtain k x where c: "c = (k, x)" by (cases c)
  have x: "0 \<le> x" using Cons.prems c by simp
  have "(\<Sum>i\<leftarrow>ids. credit (c # cs) i) = (\<Sum>i\<leftarrow>ids. (if k = i then x else 0) + credit cs i)"
    by (simp add: c credit_Cons)
  also have "\<dots> = (\<Sum>i\<leftarrow>ids. if k = i then x else 0) + (\<Sum>i\<leftarrow>ids. credit cs i)"
    by (simp add: sum_list_addf)
  also have "(\<Sum>i\<leftarrow>ids. if k = i then x else 0) = (if k \<in> set ids then x else 0)"
    using assms(2) by (rule sum_list_delta)
  also have "(if k \<in> set ids then x else 0) + (\<Sum>i\<leftarrow>ids. credit cs i) \<le> x + sum_list (map snd cs)"
    using x Cons.IH Cons.prems by (intro add_mono) auto
  finally show ?case by (simp add: c)
qed

definition mr_total :: "PageRankMapReduce \<Rightarrow> (int, real) dict \<Rightarrow> real" where
  "mr_total e pr = (\<Sum>i\<leftarrow>mr_doc_ids e. dict_get pr i 0)"

definition mr_wf :: "PageRankMapReduce \<Rightarrow> bool" where
  "mr_wf e = (distinct (mr_doc_ids e) \<and> 0 < mr_num_documents e
              \<and> mr_num_documents e = length (mr_doc_ids e)
              \<and> dom (mr_outgoing_links e) = set (mr_doc_ids e))"

definition mr_inv :: "PageRankMapReduce \<Rightarrow> (int, real) dict \<Rightarrow> bool" where
  "mr_inv e pr = (distinct (map fst pr) \<and> set (mr_doc_ids e) \<subseteq> fst ` set pr
                  \<and> (\<forall>i \<in> set (mr_doc_ids e). 0 < dict_get pr i 0) \<and> mr_total e pr \<le> 1)"

lemma dict_get_mem:
  "distinct (map fst pr) \<Longrightarrow> (k, v) \<in> set pr \<Longrightarrow> dict_get pr k d = v"
  by (simp add: dict_get_def)

lemma contributions_nonneg:
  assumes wf: "mr_wf e" and inv: "mr_inv e pr"
  shows "\<forall>c \<in> set (contributions e pr). 0 \<le> snd c"
proof
  fix c assume "c \<in> set (contributions e pr)"
  then obtain k v where kv: "(k, v) \<in> set pr" and c: "c \<in> set (map_phase e k v)"
    by (auto simp: contributions_def)
  from c obtain outgoing where out: "mr_outgoing_links e k = Some outgoing"
    by (cases "mr_outgoing_links e k") (auto simp: map_phase_def)
  with c have sc: "snd c = v / real (length outgoing)"
    by (auto simp: map_phase_def Let_def split: if_splits)
  from out wf have "k \<in> set (mr_doc_ids e)" by (auto simp: mr_wf_def)
  with inv have "0 < dict_get pr k 0" by (simp add: mr_inv_def)
  moreover from inv kv have "dict_get pr k 0 = v" by (simp add: mr_inv_def dict_get_mem)
  ultimately show "0 \<le> snd c" using sc by simp
qed

lemma payout_sum:
  assumes wf: "mr_wf e" and inv: "mr_inv e pr"
  shows "(\<Sum>(k, v)\<leftarrow>pr. payout e k v) = (\<Sum>i\<leftarrow>mr_doc_ids e. payout e i (dict_get pr i 0))"
proof (rule sum_dict_restrict)
  show "distinct (map fst pr)" using inv by (simp add: mr_inv_def)
  show "distinct (mr_doc_ids e)" using wf by (simp add: mr_wf_def)
  show "set (mr_doc_ids e) \<subseteq> fst ` set pr" using inv by (simp add: mr_inv_def)
  show "\<forall>(k, v) \<in> set pr. k \<notin> set (mr_doc_ids e) \<longrightarrow> payout e k v = 0"
    using wf by (auto simp: payout_eq mr_wf_def split: option.splits)
qed

lemma iteration_inv:
  assumes d: "0 < mr_damping_factor e" "mr_damping_factor e < 1"
    and wf: "mr_wf e" and inv: "mr_inv e pr"
  shows "\<exists>pr'. calculate_pagerank_iteration e pr = Inr pr' \<and> mr_inv e pr'
           \<and> (mr_total e pr' = 1 \<longrightarrow> (\<forall>i \<in> set (mr_doc_ids e). mr_outgoing_links e i \<noteq> Some []))"
proof -
  let ?d = "mr_damping_factor e"
  let ?n = "mr_num_documents e"
  let ?ids = "mr_doc_ids e"
  let ?C = "contributions e pr"
  let ?f = "\<lambda>r. (1 - ?d) / real ?n + r * ?d"
  let ?pr' = "fold (\<lambda>doc_id nr. dict_set nr doc_id (?f (dict_get nr doc_id 0))) ?ids (reduce_phase ?C)"
  from wf have dist: "distinct ?ids" and n: "0 < ?n" and len: "?n = length ?ids"
    by (auto simp: mr_wf_def)
  from inv have pos: "\<forall>i \<in> set ?ids. 0 < dict_get pr i 0" and le1: "mr_total e pr \<le> 1"
    by (simp_all add: mr_inv_def)
  have run: "calculate_pagerank_iteration e pr = Inr ?pr'"
    using n by (rule iteration_ok)
  have get: "dict_get ?pr' i 0 = ?f (credit ?C i)" if "i \<in> set ?ids" for i
    using that combine_get [OF dist, of ?f "reduce_phase ?C" i] by (simp add: reduce_phase_get)
  have nonneg: "\<forall>c \<in> set ?C. 0 \<le> snd c"
    using wf inv by (rule contributions_nonneg)
  have credit_nonneg: "0 \<le> credit ?C i" for i
    unfolding credit_def using nonneg by (intro sum_list_nonneg) auto
  have total: "mr_total e ?pr' = (1 - ?d) + ?d * (\<Sum>i\<leftarrow>?ids. credit ?C i)"
  proof -
    have "mr_total e ?pr' = (\<Sum>i\<leftarrow>?ids. (1 - ?d) / real ?n + ?d * credit ?C i)"
      unfolding mr_total_def
    proof -
      show "(\<Sum>i\<leftarrow>?ids. dict_get ?pr' i 0) = (\<Sum>i\<leftarrow>?ids. (1 - ?d) / real ?n + ?d * credit ?C i)"
    proof (rule arg_cong [where f = sum_list], rule map_cong [OF refl])
      fix i assume "i \<in> set ?ids"
      from get [OF this] show "dict_get ?pr' i 0 = (1 - ?d) / real ?n + ?d * credit ?C i"
        by (simp only: mult.commute)
    qed
    qed
    also have "\<dots> = real (length ?ids) * ((1 - ?d) / real ?n) + ?d * (\<Sum>i\<leftarrow>?ids. credit ?C i)"
      by (rule sum_list_const_add)
    finally show ?thesis using n len by simp
  qed
  let ?g = "\<lambda>i. payout e i (dict_get pr i 0)"
  have c_le: "(\<Sum>i\<leftarrow>?ids. credit ?C i) \<le> sum_list (map snd ?C)"
    using nonneg dist by (rule credit_sum_le)
  have c_eq: "sum_list (map snd ?C) = sum_list (map ?g ?ids)"
    using payout_sum [OF wf inv] by (simp add: sum_contributions)
  have g_le: "\<forall>i \<in> set ?ids. ?g i \<le> dict_get pr i 0"
    using pos by (auto simp: payout_eq split: option.splits intro: less_imp_le)
  have p_le: "sum_list (map ?g ?ids) \<le> mr_total e pr"
    unfolding mr_total_def using g_le by (intro sum_list_mono) simp
  have chain: "(\<Sum>i\<leftarrow>?ids. credit ?C i) \<le> 1"
    using c_le c_eq p_le le1 by linarith
  have "?d * (\<Sum>i\<leftarrow>?ids. credit ?C i) \<le> ?d * 1"
    using chain d by (intro mult_left_mono) auto
  then have le1': "mr_total e ?pr' \<le> 1" using total by simp
  have pos': "\<forall>i \<in> set ?ids. 0 < dict_get ?pr' i 0"
  proof
    fix i assume i: "i \<in> set ?ids"
    have "0 < (1 - ?d) / real ?n" using d n by simp
    moreover have "0 \<le> credit ?C i * ?d" using credit_nonneg d by simp
    ultimately show "0 < dict_get ?pr' i 0" using get [OF i] by linarith
  qed
  have keys': "set ?ids \<subseteq> fst ` set ?pr'"
    using combine_keys [of ?f ?ids "reduce_phase ?C"] by simp
  have dist': "distinct (map fst ?pr')"
    using combine_distinct [OF reduce_phase_distinct, of ?f ?ids ?C] by simp
  have inv': "mr_inv e ?pr'"
    unfolding mr_inv_def using dist' keys' pos' le1' by simp
  have dangling: "\<forall>i \<in> set ?ids. mr_outgoing_links e i \<noteq> Some []" if eq1: "mr_total e ?pr' = 1"
  proof -
    from eq1 total have "?d * (\<Sum>i\<leftarrow>?ids. credit ?C i) = ?d * 1" by simp
    with d have "(\<Sum>i\<leftarrow>?ids. credit ?C i) = 1" by simp
    with c_le c_eq p_le le1 have "sum_list (map ?g ?ids) = sum_list (map (\<lambda>i. dict_get pr i 0) ?ids)"
      unfolding mr_total_def by linarith
    with g_le have pw: "\<forall>i \<in> set ?ids. ?g i = dict_get pr i 0"
      by (rule sum_list_eq_pointwise)
    show ?thesis
    proof
      fix i assume i: "i \<in> set ?ids"
      show "mr_outgoing_links e i \<noteq> Some []"
      proof
        assume "mr_outgoing_links e i = Some []"
        then have "?g i = 0" by (simp add: payout_eq)
        with pw i pos show False by force
      qed
    qed
  qed
  from run inv' dangling show ?thesis by blast
qed

section \<open>The engines on a storage\<close>

definition doc_ids :: "Database \<Rightarrow> int list" where
  "doc_ids db = map fst (get_all_documents db)"

definition out_links :: "Database \<Rightarrow> int \<Rightarrow> int list" where
  "out_links db doc_id =
     map (\<lambda>l. the (fst l)) (filter (\<lambda>l. truthy (fst l)) (get_outgoing_links db doc_id))"

fun mr_iterations :: "PageRankMapReduce \<Rightarrow> nat \<Rightarrow> (int, real) dict \<Rightarrow> py_error + (int, real) dict" where
  "mr_iterations e 0 pr = Inr pr"
| "mr_iterations e (Suc k) pr =
     (case mr_iterations e k pr of Inl err \<Rightarrow> Inl err | Inr pr' \<Rightarrow> calculate_pagerank_iteration e pr')"

lemma doc_ids_documents: "doc_ids db = map fst (documents db)"
  by (simp add: doc_ids_def get_all_documents_def comp_def case_prod_beta)

lemma fold_map_upd:
  "fold (\<lambda>k m. m(k \<mapsto> f k)) ids m0 k = (if k \<in> set ids then Some (f k) else m0 k)"
proof (induction ids rule: rev_induct)
  case Nil
  then show ?case by simp
next
  case (snoc x xs)
  show ?case
  proof (cases "k = x")
    case True
    then show ?thesis by (simp add: fun_upd_same del: fun_upd_apply)
  next
    case False
    with snoc show ?thesis by (simp add: fun_upd_other del: fun_upd_apply)
  qed
qed

lemma fold_dict_const_get:
  "dict_get (fold (\<lambda>doc_id d. dict_set d doc_id c) ids d0) k z
   = (if k \<in> set ids then c else dict_get d0 k z)"
  by (induction ids arbitrary: d0) (auto simp: dict_get_set)

lemma fold_dict_const_keys:
  "fst ` set (fold (\<lambda>doc_id d. dict_set d doc_id c) ids d0) = set ids \<union> fst ` set d0"
proof (induction ids arbitrary: d0)
  case Nil
  then show ?case by simp
next
  case (Cons i ids)
  show ?case using Cons.IH [of "dict_set d0 i c"] by (simp add: dict_keys_set)
qed

lemma fold_dict_const_distinct:
  "distinct (map fst d0) \<Longrightarrow> distinct (map fst (fold (\<lambda>doc_id d. dict_set d doc_id c) ids d0))"
  by (induction ids arbitrary: d0) (auto simp: dict_distinct_set)

lemma mr_init_fields:
  "mr_doc_ids (mr_init cfg db) = doc_ids db"
  "mr_num_documents (mr_init cfg db) = length (doc_ids db)"
  "mr_damping_factor (mr_init cfg db) = damping_factor cfg"
  "mr_pagerank (mr_init cfg db) = fold (\<lambda>doc_id d. dict_set d doc_id (1 / real (length (doc_ids db)))) (doc_ids db) []"
  by (simp_all add: mr_init_def Let_def doc_ids_def)

lemma mr_init_outgoing:
  "mr_outgoing_links (mr_init cfg db) k = (if k \<in> set (doc_ids db) then Some (out_links db k) else None)"
proof -
  have "mr_outgoing_links (mr_init cfg db) = fold (\<lambda>k m. m(k \<mapsto> out_links db k)) (doc_ids db) Map.empty"
    by (simp add: mr_init_def Let_def doc_ids_def out_links_def)
  then show ?thesis by (simp add: fold_map_upd)
qed

lemma mr_init_wf:
  assumes "distinct (doc_ids db)" and "doc_ids db \<noteq> []"
  shows "mr_wf (mr_init cfg db)"
  using assms by (auto simp: mr_wf_def mr_init_fields mr_init_outgoing dom_def)

lemma sum_list_const: "(\<Sum>x\<leftarrow>xs. (c::real)) = real (length xs) * c"
  by (induction xs) (simp_all add: algebra_simps)

lemma mr_init_inv:
  assumes "distinct (doc_ids db)" and "doc_ids db \<noteq> []"
  shows "mr_inv (mr_init cfg db) (mr_pagerank (mr_init cfg db))"
proof -
  let ?ids = "doc_ids db"
  let ?c = "1 / real (length ?ids)"
  let ?pr = "fold (\<lambda>doc_id d. dict_set d doc_id ?c) ?ids []"
  have get: "dict_get ?pr i 0 = ?c" if "i \<in> set ?ids" for i
    using that by (simp add: fold_dict_const_get)
  have "(\<Sum>i\<leftarrow>?ids. dict_get ?pr i 0) = (\<Sum>i\<leftarrow>?ids. ?c)"
    by (rule arg_cong [where f = sum_list], rule map_cong [OF refl]) (rule get)
  also have "\<dots> = 1" using assms(2) by (simp add: sum_list_const)
  finally have tot: "(\<Sum>i\<leftarrow>?ids. dict_get ?pr i 0) = 1" .
  have "distinct (map fst ?pr)" by (rule fold_dict_const_distinct) simp
  moreover have "set ?ids \<subseteq> fst ` set ?pr" by (simp add: fold_dict_const_keys)
  moreover have "\<forall>i \<in> set ?ids. 0 < dict_get ?pr i 0"
    using assms(2) by (simp add: get)
  ultimately show ?thesis
    using tot by (simp add: mr_inv_def mr_init_fields mr_total_def)
qed

lemma iterations_inv:
  assumes d: "0 < mr_damping_factor e" "mr_damping_factor e < 1" and wf: "mr_wf e"
    and inv: "mr_inv e pr"
  shows "\<exists>pr'. mr_iterations e k pr = Inr pr' \<and> mr_inv e pr'
           \<and> (0 < k \<longrightarrow> mr_total e pr' = 1 \<longrightarrow> (\<forall>i \<in> set (mr_doc_ids e). mr_outgoing_links e i \<noteq> Some []))"
proof (induction k)
  case 0
  then show ?case using inv by simp
next
  case (Suc k)
  then obtain pr1 where
    steps: "mr_iterations e k pr = Inr pr1" and inv1: "mr_inv e pr1"
    by blast
  from iteration_inv [OF d wf inv1] obtain pr' where
    run: "calculate_pagerank_iteration e pr1 = Inr pr'" and inv': "mr_inv e pr'"
    and dang': "mr_total e pr' = 1 \<longrightarrow> (\<forall>i \<in> set (mr_doc_ids e). mr_outgoing_links e i \<noteq> Some [])"
    by blast
  from steps run inv' dang' show ?case by simp
qed


lemma pg_init_ok:
  assumes dist: "distinct (doc_ids db)" and ne: "doc_ids db \<noteq> []"
  shows "\<exists>e g. pg_init cfg db = Inr e \<and> pg_graph e = Some g
            \<and> pg_damping_factor e = damping_factor cfg
            \<and> pg_num_documents e = length (doc_ids db)
            \<and> pg_doc_ids e = doc_ids db
            \<and> pg_index_to_id e = fold (\<lambda>(i, doc_id) m. m(i \<mapsto> doc_id)) (enumerate 0 (doc_ids db)) Map.empty
            \<and> shape g (length (doc_ids db))
                 (\<lambda>i. link_targets (id_index (doc_ids db)) (get_outgoing_links db (doc_ids db ! i)))"
proof -
  from build_graph_shape [OF dist, of db] obtain g where
    bg: "build_graph db (doc_ids db) (id_index (doc_ids db)) (new_graph (length (doc_ids db))) = Inr g"
    and sh: "shape g (length (doc_ids db))
                 (\<lambda>i. link_targets (id_index (doc_ids db)) (get_outgoing_links db (doc_ids db ! i)))"
    by blast
  have ne': "get_all_documents db \<noteq> []" using ne by (auto simp: doc_ids_def)
  from bg ne ne' sh show ?thesis
    by (simp add: pg_init_def Let_def doc_ids_def [symmetric] id_index_def [symmetric])
qed

lemma initialize_inv:
  assumes wf: "wf_graph g" and n: "0 < num_vertices g"
  shows "\<exists>g0. initialize_pagerank g = Inr g0 \<and> pregel_inv g0 \<and> total_value g0 = 1
           \<and> map outgoing_edges (vertices g0) = map outgoing_edges (vertices g)
           \<and> (\<forall>v \<in> set (vertices g0). active v \<and> vvalue v = 1 / real (num_vertices g))"
proof -
  let ?g0 = "g \<lparr> vertices := map (\<lambda>v. v \<lparr> vvalue := 1 / real (num_vertices g), active := True \<rparr>) (vertices g) \<rparr>"
  have run: "initialize_pagerank g = Inr ?g0"
    using n by (simp add: initialize_pagerank_def)
  have len: "length (vertices g) = num_vertices g" using wf by (rule wf_graph_length)
  have wf0: "wf_graph ?g0"
    using wf by (simp add: wf_graph_def comp_def)
  have tot: "total_value ?g0 = 1"
    using n len by (simp add: total_value_def comp_def sum_list_const)
  have "pregel_inv ?g0"
    using wf0 n tot by (auto simp: pregel_inv_def)
  with run tot show ?thesis by (auto simp: comp_def)
qed

lemma pg_init_wf:
  assumes "shape g (length ids) (\<lambda>i. link_targets (id_index ids) (ls i))"
  shows "wf_graph g"
  using assms by (rule shape_wf) (auto dest: link_targets_bound)

section \<open>Agreement of the two engines, step by step\<close>

text \<open>
  \<open>links_resolved\<close>: every resolved link target is a document (the storage only ever
  resolves a link to the id of a stored document). \<open>edge_index\<close> gives the outgoing
  edges of the vertex engine in terms of the links the map/reduce engine uses.
\<close>

definition links_resolved :: "Database \<Rightarrow> bool" where
  "links_resolved db = (\<forall>l \<in> set (links db). truthy (snd (snd l)) \<longrightarrow> the (snd (snd l)) \<in> set (doc_ids db))"

definition all_active :: "SimplePregelGraph \<Rightarrow> bool" where
  "all_active g = (\<forall>v \<in> set (vertices g). active v)"

lemma out_links_resolved:
  assumes "links_resolved db" and "t \<in> set (out_links db doc)"
  shows "t \<in> set (doc_ids db)"
  using assms
  by (auto simp: links_resolved_def out_links_def get_outgoing_links_def)

lemma link_targets_resolved:
  assumes "links_resolved db"
  shows "link_targets (id_index (doc_ids db)) (get_outgoing_links db doc)
       = map (\<lambda>t. the (id_index (doc_ids db) t)) (out_links db doc)"
proof -
  have "filter (\<lambda>l. truthy (fst l) \<and> the (fst l) \<in> dom (id_index (doc_ids db))) (get_outgoing_links db doc)
      = filter (\<lambda>l. truthy (fst l)) (get_outgoing_links db doc)"
    using assms
    by (intro filter_cong refl) (auto simp: links_resolved_def get_outgoing_links_def id_index_dom)
  then show ?thesis
    by (simp add: link_targets_def out_links_def comp_def)
qed

lemma inbox_concat: "sum_list (inbox (concat xss) t) = (\<Sum>xs\<leftarrow>xss. sum_list (inbox xs t))"
  by (induction xss) (simp_all add: inbox_def)

lemma sent_all_active:
  assumes "\<forall>v \<in> set vs. active v"
  shows "sum_list (inbox (sent vs) t) = (\<Sum>v\<leftarrow>vs. sum_list (inbox (send_messages v) t))"
proof -
  have "sent vs = concat (map send_messages vs)"
    unfolding sent_def
    by (rule arg_cong [where f = concat], rule map_cong [OF refl]) (use assms in simp)
  then show ?thesis by (simp add: inbox_concat comp_def)
qed

lemma sum_list_nth: "sum_list (map f xs) = (\<Sum>j\<leftarrow>[0..<length xs]. f (xs ! j))"
proof -
  have "map f xs = map f (map ((!) xs) [0..<length xs])" by (simp only: map_nth)
  then show ?thesis by (simp add: comp_def)
qed

lemma inbox_credit_same:
  assumes "\<forall>t \<in> set ts. (idx t = i) = (t = a)"
  shows "sum_list (inbox (map (\<lambda>t. (idx t, s)) ts) i) = credit (map (\<lambda>t. (t, s)) ts) a"
  using assms by (induction ts) (auto simp: inbox_def credit_def)

lemma send_vs_map_phase:
  assumes e: "outgoing_edges v = map idx ts" and o: "mr_outgoing_links e doc = Some ts"
    and same: "\<forall>t \<in> set ts. (idx t = i) = (t = a)"
  shows "sum_list (inbox (send_messages v) i) = credit (map_phase e doc (vvalue v)) a"
proof (cases "ts = []")
  case True
  with e o show ?thesis by (simp add: send_messages_def map_phase_def inbox_def credit_def)
next
  case False
  with e o have "send_messages v = map (\<lambda>t. (idx t, vvalue v / real (length ts))) ts"
    and "map_phase e doc (vvalue v) = map (\<lambda>t. (t, vvalue v / real (length ts))) ts"
    by (simp_all add: send_messages_def map_phase_def Let_def comp_def)
  with same show ?thesis by (simp add: inbox_credit_same)
qed


definition edge_index :: "Database \<Rightarrow> nat \<Rightarrow> nat list" where
  "edge_index db i = map (\<lambda>t. the (id_index (doc_ids db) t)) (out_links db (doc_ids db ! i))"

definition same_scores :: "Database \<Rightarrow> SimplePregelGraph \<Rightarrow> (int, real) dict \<Rightarrow> bool" where
  "same_scores db g pr = (\<forall>i < length (doc_ids db). vvalue (vertices g ! i) = dict_get pr (doc_ids db ! i) 0)"

lemma index_of_target:
  assumes dist: "distinct ids" and i: "i < length ids" and t: "t \<in> set ids"
  shows "(the (id_index ids t) = i) = (t = ids ! i)"
proof -
  from t obtain j where j: "j < length ids" and tj: "t = ids ! j"
    by (metis in_set_conv_nth)
  have "id_index ids t = Some j" using id_index_nth [OF dist j] tj by simp
  moreover have "(j = i) = (ids ! j = ids ! i)"
    using dist i j by (simp add: nth_eq_iff_index_eq)
  ultimately show ?thesis using tj by simp
qed

lemma credit_over_ids:
  assumes wf: "mr_wf e" and dk: "distinct (map fst pr)" and sub: "set (mr_doc_ids e) \<subseteq> fst ` set pr"
  shows "credit (contributions e pr) a
       = (\<Sum>j\<leftarrow>[0..<length (mr_doc_ids e)].
            credit (map_phase e (mr_doc_ids e ! j) (dict_get pr (mr_doc_ids e ! j) 0)) a)"
proof -
  let ?G = "\<lambda>k v. credit (map_phase e k v) a"
  have zero: "\<forall>(k, v) \<in> set pr. k \<notin> set (mr_doc_ids e) \<longrightarrow> ?G k v = 0"
  proof (clarify)
    fix k v assume "k \<notin> set (mr_doc_ids e)"
    with wf have "mr_outgoing_links e k = None" by (auto simp: mr_wf_def)
    then show "?G k v = 0" by (simp add: map_phase_def credit_Nil)
  qed
  have dist: "distinct (mr_doc_ids e)" using wf by (simp add: mr_wf_def)
  have "credit (contributions e pr) a = (\<Sum>(k, v)\<leftarrow>pr. ?G k v)"
    by (rule credit_contributions)
  also have "\<dots> = (\<Sum>i\<leftarrow>mr_doc_ids e. ?G i (dict_get pr i 0))"
    using dk dist sub zero by (rule sum_dict_restrict)
  also have "\<dots> = (\<Sum>j\<leftarrow>[0..<length (mr_doc_ids e)]. ?G (mr_doc_ids e ! j) (dict_get pr (mr_doc_ids e ! j) 0))"
    by (rule sum_list_nth)
  finally show ?thesis .
qed

lemma step_agree:
  assumes dist: "distinct (doc_ids db)" and ne: "doc_ids db \<noteq> []" and ri: "links_resolved db"
    and sh: "shape g (length (doc_ids db)) (edge_index db)" and act: "all_active g"
    and dk: "distinct (map fst pr)" and sub: "set (doc_ids db) \<subseteq> fst ` set pr"
    and same: "same_scores db g pr"
  shows "\<exists>g' a pr'. run_superstep (damping_factor cfg) g = Inr (g', a)
           \<and> calculate_pagerank_iteration (mr_init cfg db) pr = Inr pr'
           \<and> shape g' (length (doc_ids db)) (edge_index db)
           \<and> distinct (map fst pr') \<and> set (doc_ids db) \<subseteq> fst ` set pr'
           \<and> same_scores db g' pr'"
proof -
  let ?ids = "doc_ids db"
  let ?n = "length ?ids"
  let ?d = "damping_factor cfg"
  let ?e = "mr_init cfg db"
  let ?vs = "vertices g"
  let ?msgs = "collect_messages ?vs"
  let ?vs' = "map (receive ?d (num_vertices g) ?msgs) ?vs"
  let ?g' = "g \<lparr> vertices := ?vs', superstep := superstep g + 1, messages := ?msgs \<rparr>"
  let ?C = "contributions ?e pr"
  let ?f = "\<lambda>r. (1 - mr_damping_factor ?e) / real (mr_num_documents ?e) + r * mr_damping_factor ?e"
  let ?pr' = "fold (\<lambda>doc_id nr. dict_set nr doc_id (?f (dict_get nr doc_id 0))) (mr_doc_ids ?e) (reduce_phase ?C)"
  from sh have num: "num_vertices g = ?n" and len: "length ?vs = ?n"
    and nth: "\<forall>i < ?n. vid (?vs ! i) = i \<and> outgoing_edges (?vs ! i) = edge_index db i"
    by (auto simp: shape_def)
  have n0: "0 < ?n" using ne by simp
  have wf: "mr_wf ?e" using dist ne by (rule mr_init_wf)
  have runA: "run_superstep ?d g = Inr (?g', 0 < length (filter active ?vs'))"
    using n0 num by (intro run_superstep_ok) simp
  have runB: "calculate_pagerank_iteration ?e pr = Inr ?pr'"
    using n0 by (intro iteration_ok) (simp add: mr_init_fields)
  have sh': "shape ?g' ?n (edge_index db)"
    using sh by (simp add: shape_def vid_receive outgoing_receive)
  have dk': "distinct (map fst ?pr')"
    using combine_distinct [OF reduce_phase_distinct, of ?f "mr_doc_ids ?e" ?C] by simp
  have sub': "set ?ids \<subseteq> fst ` set ?pr'"
    using combine_keys [of ?f "mr_doc_ids ?e" "reduce_phase ?C"] by (simp add: mr_init_fields)
  have same': "same_scores db ?g' ?pr'"
    unfolding same_scores_def
  proof (intro allI impI)
    fix i assume i: "i < ?n"
    have pointwise: "sum_list (inbox (send_messages (?vs ! j)) i)
        = credit (map_phase ?e (?ids ! j) (dict_get pr (?ids ! j) 0)) (?ids ! i)" if j: "j < ?n" for j
    proof -
      have ed: "outgoing_edges (?vs ! j) = map (\<lambda>t. the (id_index ?ids t)) (out_links db (?ids ! j))"
        using nth j by (simp add: edge_index_def)
      have ol: "mr_outgoing_links ?e (?ids ! j) = Some (out_links db (?ids ! j))"
        using j by (simp add: mr_init_outgoing)
      have sm: "\<forall>t \<in> set (out_links db (?ids ! j)). (the (id_index ?ids t) = i) = (t = ?ids ! i)"
        using index_of_target [OF dist i] out_links_resolved [OF ri] by blast
      have "vvalue (?vs ! j) = dict_get pr (?ids ! j) 0"
        using same j by (simp add: same_scores_def)
      with send_vs_map_phase [OF ed ol sm] show ?thesis by simp
    qed
    have "sum_list (inbox (sent ?vs) i) = (\<Sum>v\<leftarrow>?vs. sum_list (inbox (send_messages v) i))"
      using act by (intro sent_all_active) (simp add: all_active_def)
    also have "\<dots> = (\<Sum>j\<leftarrow>[0..<?n]. sum_list (inbox (send_messages (?vs ! j)) i))"
      using sum_list_nth [of "\<lambda>v. sum_list (inbox (send_messages v) i)" ?vs] len by simp
    also have "\<dots> = (\<Sum>j\<leftarrow>[0..<?n]. credit (map_phase ?e (?ids ! j) (dict_get pr (?ids ! j) 0)) (?ids ! i))"
      by (rule arg_cong [where f = sum_list], rule map_cong [OF refl]) (simp add: pointwise)
    also have "\<dots> = credit ?C (?ids ! i)"
      using credit_over_ids [OF wf dk, of "?ids ! i"] sub by (simp add: mr_init_fields)
    finally have inb: "sum_list (inbox (sent ?vs) i) = credit ?C (?ids ! i)" .
    have "vvalue (?vs' ! i) = (1 - ?d) / real ?n + ?d * sum_list (inbox (sent ?vs) i)"
      using i len nth by (simp add: vvalue_receive collect_messages_inbox num)
    moreover have "dict_get ?pr' (?ids ! i) 0 = ?f (credit ?C (?ids ! i))"
    proof -
      have "distinct (mr_doc_ids ?e)" using dist by (simp add: mr_init_fields)
      from combine_get [OF this, of ?f "reduce_phase ?C" "?ids ! i"] i show ?thesis
        by (simp add: reduce_phase_get mr_init_fields)
    qed
    ultimately show "vvalue (vertices ?g' ! i) = dict_get ?pr' (?ids ! i) 0"
      using inb by (simp add: mr_init_fields mult.commute)
  qed
  from runA runB sh' dk' sub' same' show ?thesis by blast
qed


lemma foldE_append:
  "foldE f (xs @ ys) s = (case foldE f xs s of Inl err \<Rightarrow> Inl err | Inr s' \<Rightarrow> foldE f ys s')"
  by (induction xs arbitrary: s) (auto split: sum.splits)

lemma current_pagerank_scores:
  assumes dist: "distinct ids"
  shows "length vs \<le> length ids \<Longrightarrow>
         \<exists>scores. foldE (\<lambda>(i, vertex) pr.
                   case lookup (fold (\<lambda>(i, doc_id) m. m(i \<mapsto> doc_id)) (enumerate 0 ids) Map.empty) i of
                     Inl err \<Rightarrow> Inl err
                   | Inr doc_id \<Rightarrow> Inr (dict_set pr doc_id (vvalue vertex)))
                (enumerate 0 vs) [] = Inr scores
            \<and> (\<forall>i < length vs. dict_get scores (ids ! i) 0 = vvalue (vs ! i))"
proof (induction vs rule: rev_induct)
  case Nil
  then show ?case by simp
next
  case (snoc x xs)
  let ?m = "fold (\<lambda>(i, doc_id) m. m(i \<mapsto> doc_id)) (enumerate 0 ids) Map.empty"
  let ?step = "\<lambda>(i, vertex) pr. case lookup ?m i of
                     Inl err \<Rightarrow> Inl err
                   | Inr doc_id \<Rightarrow> Inr (dict_set pr doc_id (vvalue vertex))"
  from snoc.prems have len: "length xs < length ids" by simp
  then have "length xs \<le> length ids" by simp
  from snoc.IH [OF this] obtain scores where
    run: "foldE ?step (enumerate 0 xs) [] = Inr scores"
    and get: "\<forall>i < length xs. dict_get scores (ids ! i) 0 = vvalue (xs ! i)"
    by blast
  have look: "lookup ?m (length xs) = Inr (ids ! length xs)"
    using index_to_id_nth [OF len, of 0 Map.empty] by (simp add: lookup_def)
  let ?scores' = "dict_set scores (ids ! length xs) (vvalue x)"
  have run': "foldE ?step (enumerate 0 (xs @ [x])) [] = Inr ?scores'"
    using run look by (simp add: enumerate_append_eq foldE_append)
  have "\<forall>i < length (xs @ [x]). dict_get ?scores' (ids ! i) 0 = vvalue ((xs @ [x]) ! i)"
  proof (intro allI impI)
    fix i assume i: "i < length (xs @ [x])"
    show "dict_get ?scores' (ids ! i) 0 = vvalue ((xs @ [x]) ! i)"
    proof (cases "i = length xs")
      case True
      then show ?thesis by (simp add: dict_get_set)
    next
      case False
      with i have il: "i < length xs" by simp
      with len dist have "ids ! i \<noteq> ids ! length xs"
        by (simp add: nth_eq_iff_index_eq)
      with il get show ?thesis by (simp add: dict_get_set nth_append)
    qed
  qed
  with run' show ?case by blast
qed

lemma supersteps_agree:
  assumes dist: "distinct (doc_ids db)" and ne: "doc_ids db \<noteq> []" and ri: "links_resolved db"
    and sh0: "shape g0 (length (doc_ids db)) (edge_index db)"
    and dk0: "distinct (map fst pr0)" and sub0: "set (doc_ids db) \<subseteq> fst ` set pr0"
    and same0: "same_scores db g0 pr0"
  shows "pg_supersteps (damping_factor cfg) k g0 = Inr gk \<Longrightarrow>
         (\<forall>j<k. \<forall>gj. pg_supersteps (damping_factor cfg) j g0 = Inr gj \<longrightarrow> all_active gj) \<Longrightarrow>
         \<exists>pr. mr_iterations (mr_init cfg db) k pr0 = Inr pr
           \<and> shape gk (length (doc_ids db)) (edge_index db)
           \<and> distinct (map fst pr) \<and> set (doc_ids db) \<subseteq> fst ` set pr
           \<and> same_scores db gk pr"
proof (induction k arbitrary: gk)
  case 0
  then show ?case using sh0 dk0 sub0 same0 by simp
next
  case (Suc k)
  from Suc.prems(1) obtain g1 where g1: "pg_supersteps (damping_factor cfg) k g0 = Inr g1"
    by (auto split: sum.splits)
  have act_before: "\<forall>j<k. \<forall>gj. pg_supersteps (damping_factor cfg) j g0 = Inr gj \<longrightarrow> all_active gj"
    using Suc.prems(2) by (meson less_Suc_eq)
  from Suc.IH [OF g1 act_before] obtain pr1 where
    it1: "mr_iterations (mr_init cfg db) k pr0 = Inr pr1"
    and sh1: "shape g1 (length (doc_ids db)) (edge_index db)"
    and dk1: "distinct (map fst pr1)" and sub1: "set (doc_ids db) \<subseteq> fst ` set pr1"
    and same1: "same_scores db g1 pr1"
    by blast
  have act1: "all_active g1" using Suc.prems(2) g1 by (meson lessI)
  from step_agree [OF dist ne ri sh1 act1 dk1 sub1 same1, of cfg] obtain g' a pr' where
    runA: "run_superstep (damping_factor cfg) g1 = Inr (g', a)"
    and runB: "calculate_pagerank_iteration (mr_init cfg db) pr1 = Inr pr'"
    and rest: "shape g' (length (doc_ids db)) (edge_index db)"
       "distinct (map fst pr')" "set (doc_ids db) \<subseteq> fst ` set pr'" "same_scores db g' pr'"
    by blast
  from Suc.prems(1) g1 runA have "gk = g'" by simp
  with it1 runB rest show ?case by simp
qed

lemma shape_initialize:
  assumes "shape g n E" and "0 < n"
  shows "\<exists>g0. initialize_pagerank g = Inr g0 \<and> shape g0 n E \<and> all_active g0
           \<and> (\<forall>i < n. vvalue (vertices g0 ! i) = 1 / real n)"
  using assms by (auto simp: initialize_pagerank_def shape_def all_active_def)

text \<open>
  The graph of \<open>two_docs_db\<close> after initialisation, and after two supersteps with the
  configured damping factor: the first vertex has converged and is inactive.
\<close>

definition stalled_graph :: SimplePregelGraph where
  "stalled_graph =
     \<lparr> vertices = [\<lparr> vid = 0, vvalue = 3 / 40, outgoing_edges = [1], active = False \<rparr>,
                   \<lparr> vid = 1, vvalue = 111 / 800, outgoing_edges = [], active = True \<rparr>],
       num_vertices = 2, superstep = 2, messages = [(1, [3 / 40])] \<rparr>"

definition two_docs_graph0 :: SimplePregelGraph where
  "two_docs_graph0 =
     \<lparr> vertices = [\<lparr> vid = 0, vvalue = 1 / 2, outgoing_edges = [1], active = True \<rparr>,
                   \<lparr> vid = 1, vvalue = 1 / 2, outgoing_edges = [], active = True \<rparr>],
       num_vertices = 2, superstep = 0, messages = [] \<rparr>"

lemmas superstep_defs = run_superstep_def collect_messages_def receive_def send_messages_def
  dict_get_def dict_set_def Let_def

lemma stalled_graph_reached:
  "pg_supersteps (85 / 100) 2 two_docs_graph0 = Inr stalled_graph"
  by (simp add: eval_nat_numeral two_docs_graph0_def stalled_graph_def superstep_defs)

text \<open>
  On a storage with distinct document ids, at least one document and every resolved link
  target a document, both engines start from the same vector, and the scores read from
  the vertex engine after \<open>k\<close> supersteps equal, document by document, the scores of the
  map/reduce engine after \<open>k\<close> iterations, as long as every vertex was active before
  each of these supersteps. The two engines can therefore part only where a vertex that
  has stopped changing no longer sends.
\<close>

lemma engines_agree_while_all_active:
  assumes "distinct (doc_ids db)" and "doc_ids db \<noteq> []" and "links_resolved db"
  shows "\<exists>e g g0. pg_init cfg db = Inr e \<and> pg_graph e = Some g \<and> initialize_pagerank g = Inr g0
           \<and> all_active g0
           \<and> (\<forall>k gk. pg_supersteps (damping_factor cfg) k g0 = Inr gk
                   \<and> (\<forall>j<k. \<forall>gj. pg_supersteps (damping_factor cfg) j g0 = Inr gj \<longrightarrow> all_active gj)
                 \<longrightarrow> (\<exists>pr scores.
                        mr_iterations (mr_init cfg db) k (mr_pagerank (mr_init cfg db)) = Inr pr
                      \<and> get_current_pagerank (e \<lparr> pg_graph := Some gk \<rparr>) = Inr scores
                      \<and> (\<forall>doc \<in> set (doc_ids db). dict_get scores doc 0 = dict_get pr doc 0)))"
proof -
  let ?ids = "doc_ids db"
  let ?n = "length ?ids"
  let ?pr0 = "mr_pagerank (mr_init cfg db)"
  have n0: "0 < ?n" using assms(2) by simp
  from pg_init_ok [OF assms(1,2), of cfg] obtain e g where
    init: "pg_init cfg db = Inr e" and gr: "pg_graph e = Some g"
    and i2i: "pg_index_to_id e = fold (\<lambda>(i, doc_id) m. m(i \<mapsto> doc_id)) (enumerate 0 ?ids) Map.empty"
    and sh: "shape g ?n (\<lambda>i. link_targets (id_index ?ids) (get_outgoing_links db (?ids ! i)))"
    by blast
  have shE: "shape g ?n (edge_index db)"
    using sh by (rule shape_cong) (simp add: edge_index_def link_targets_resolved [OF assms(3)])
  from shape_initialize [OF shE n0] obtain g0 where
    ini: "initialize_pagerank g = Inr g0" and sh0: "shape g0 ?n (edge_index db)"
    and act0: "all_active g0" and v0: "\<forall>i < ?n. vvalue (vertices g0 ! i) = 1 / real ?n"
    by blast
  have inv0: "mr_inv (mr_init cfg db) ?pr0" using assms(1,2) by (rule mr_init_inv)
  then have dk0: "distinct (map fst ?pr0)" and sub0: "set ?ids \<subseteq> fst ` set ?pr0"
    by (simp_all add: mr_inv_def mr_init_fields)
  have same0: "same_scores db g0 ?pr0"
    using v0 by (simp add: same_scores_def mr_init_fields fold_dict_const_get)
  have main: "\<exists>pr scores.
                        mr_iterations (mr_init cfg db) k ?pr0 = Inr pr
                      \<and> get_current_pagerank (e \<lparr> pg_graph := Some gk \<rparr>) = Inr scores
                      \<and> (\<forall>doc \<in> set ?ids. dict_get scores doc 0 = dict_get pr doc 0)"
    if steps: "pg_supersteps (damping_factor cfg) k g0 = Inr gk"
      and act: "\<forall>j<k. \<forall>gj. pg_supersteps (damping_factor cfg) j g0 = Inr gj \<longrightarrow> all_active gj"
    for k gk
  proof -
    from supersteps_agree [OF assms sh0 dk0 sub0 same0 steps act] obtain pr where
      it: "mr_iterations (mr_init cfg db) k ?pr0 = Inr pr"
      and shk: "shape gk ?n (edge_index db)" and samek: "same_scores db gk pr"
      by blast
    have lenk: "length (vertices gk) \<le> ?n" using shk by (simp add: shape_def)
    from current_pagerank_scores [OF assms(1) lenk] obtain scores where
      cur: "get_current_pagerank (e \<lparr> pg_graph := Some gk \<rparr>) = Inr scores"
      and get: "\<forall>i < length (vertices gk). dict_get scores (?ids ! i) 0 = vvalue (vertices gk ! i)"
      unfolding get_current_pagerank_def by (auto simp: i2i)
    have "\<forall>doc \<in> set ?ids. dict_get scores doc 0 = dict_get pr doc 0"
    proof
      fix doc assume "doc \<in> set ?ids"
      then obtain i where i: "i < ?n" and doc: "doc = ?ids ! i"
        by (metis in_set_conv_nth)
      have "length (vertices gk) = ?n" using shk by (simp add: shape_def)
      with get i have "dict_get scores (?ids ! i) 0 = vvalue (vertices gk ! i)" by simp
      also have "\<dots> = dict_get pr (?ids ! i) 0"
        using samek i by (simp add: same_scores_def)
      finally show "dict_get scores doc 0 = dict_get pr doc 0" by (simp add: doc)
    qed
    with it cur show ?thesis by blast
  qed
  from init gr ini act0 main show ?thesis by blast
qed

section \<open>Finding the query terms in a text\<close>





















section \<open>Re-indexing a document\<close>


text \<open>
  What the storage guarantees for the word and posting tables: ids come from the
  sequences (positive, at most the sequence value), word ids and words are unique, and a
  posting refers to a word id that has been handed out.
\<close>

definition index_ok :: "Database \<Rightarrow> bool" where
  "index_ok db =
     (0 \<le> documents_seq db \<and> 0 \<le> words_seq db
      \<and> list_all (\<lambda>(i, u, t, c). 0 < i) (documents db)
      \<and> distinct (map fst (words db)) \<and> distinct (map (\<lambda>(i, w, f). w) (words db))
      \<and> list_all (\<lambda>(i, w, f). 0 < i \<and> i \<le> words_seq db) (words db)
      \<and> list_all (\<lambda>(wi, d, t, ps). wi \<le> words_seq db) (inverted_index db))"

lemma index_ok_empty_db: "index_ok empty_db"
  by (simp add: index_ok_def empty_db_def)








































section \<open>Tokens of a cleaned text\<close>





























section \<open>The idf cache of the search engine\<close>

text \<open>
  What an engine with an empty cache computes for a word, and the cache of an engine
  that was filled from the storage it searches: every cached weight is the one the
  engine computes for the word on that storage.
\<close>

definition fresh_idf :: "SearchEngine \<Rightarrow> Database \<Rightarrow> string \<Rightarrow> real" where
  "fresh_idf eng db word = fst (calculate_idf (eng \<lparr> idf_cache := Map.empty \<rparr>) db word)"

definition cache_ok :: "SearchEngine \<Rightarrow> Database \<Rightarrow> bool" where
  "cache_ok eng db = (\<forall>word v. idf_cache eng word = Some v \<longrightarrow> v = fresh_idf eng db word)"

lemma fresh_idf_eq:
  "fresh_idf eng db word =
     (if get_documents_for_word db word = [] then 0
      else ln ((real (total_documents eng) + 1) / (real (length (get_documents_for_word db word)) + 1)) + 1)"
  by (simp add: fresh_idf_def calculate_idf_def Let_def)

lemma fresh_idf_cong:
  "total_documents e1 = total_documents e2 \<Longrightarrow> fresh_idf e1 db word = fresh_idf e2 db word"
  by (simp add: fresh_idf_eq)



lemma calculate_idf_cached:
  "idf_cache eng word = Some v \<Longrightarrow> calculate_idf eng db word = (v, eng)"
  by (simp add: calculate_idf_def)

lemma calculate_idf_uncached:
  "idf_cache eng word = None \<Longrightarrow>
   calculate_idf eng db word
     = (fresh_idf eng db word, eng \<lparr> idf_cache := (idf_cache eng)(word \<mapsto> fresh_idf eng db word) \<rparr>)"
  by (simp add: calculate_idf_def fresh_idf_def Let_def)

lemma calculate_idf_ok:
  assumes "cache_ok eng db"
  shows "fst (calculate_idf eng db word) = fresh_idf eng db word"
    and "idf_cache (snd (calculate_idf eng db word)) = (idf_cache eng)(word \<mapsto> fresh_idf eng db word)"
    and "total_documents (snd (calculate_idf eng db word)) = total_documents eng"
    and "cache_ok (snd (calculate_idf eng db word)) db"
proof -
  have all: "fst (calculate_idf eng db word) = fresh_idf eng db word
    \<and> idf_cache (snd (calculate_idf eng db word)) = (idf_cache eng)(word \<mapsto> fresh_idf eng db word)
    \<and> total_documents (snd (calculate_idf eng db word)) = total_documents eng"
  proof (cases "idf_cache eng word")
    case None
    from calculate_idf_uncached [OF None] show ?thesis by simp
  next
    case (Some v)
    with assms have v: "v = fresh_idf eng db word" by (simp add: cache_ok_def)
    from calculate_idf_cached [OF Some] Some v show ?thesis by (auto simp: fun_eq_iff)
  qed
  then show "fst (calculate_idf eng db word) = fresh_idf eng db word"
    and c: "idf_cache (snd (calculate_idf eng db word)) = (idf_cache eng)(word \<mapsto> fresh_idf eng db word)"
    and t: "total_documents (snd (calculate_idf eng db word)) = total_documents eng"
    by simp_all
  show "cache_ok (snd (calculate_idf eng db word)) db"
    unfolding cache_ok_def c fresh_idf_cong [OF t]
    using assms by (auto simp: cache_ok_def)
qed

text \<open>Term-at-a-time: the scores after one query term depend on the weight only.\<close>

definition taat_add :: "(int \<rightharpoonup> nat) \<Rightarrow> real \<Rightarrow> (int \<times> real) list \<Rightarrow> (int, real) dict \<Rightarrow> (int, real) dict" where
  "taat_add lens idf docs_with_term scores =
     (if idf = 0 then scores
      else fold (\<lambda>(doc_id, raw_tf) sc.
                   case lens doc_id of
                     None \<Rightarrow> sc
                   | Some len \<Rightarrow>
                       if len = 0 then sc
                       else (let term_count = py_int (raw_tf * real len);
                                 tf = calculate_tf term_count len;
                                 tfidf = tf * idf
                             in dict_set sc doc_id (dict_get sc doc_id 0 + tfidf)))
                docs_with_term scores)"

lemma taat_term_eq:
  "taat_term db lens t (scores, eng) =
     (taat_add lens (fst (calculate_idf eng db t)) (get_documents_for_word db t) scores,
      snd (calculate_idf eng db t))"
  by (cases "calculate_idf eng db t") (simp add: taat_term_def taat_add_def)


lemma taat_term_ok:
  assumes "cache_ok eng db"
  shows "fst (taat_term db lens t (scores, eng))
           = taat_add lens (fresh_idf eng db t) (get_documents_for_word db t) scores"
    and "total_documents (snd (taat_term db lens t (scores, eng))) = total_documents eng"
    and "cache_ok (snd (taat_term db lens t (scores, eng))) db"
  using calculate_idf_ok [OF assms, of t] by (simp_all add: taat_term_eq)


text \<open>Document-at-a-time: the weights of the query terms, and the loop over the terms.\<close>

definition idf_step :: "Database \<Rightarrow> string \<Rightarrow> (string \<rightharpoonup> real) \<times> SearchEngine \<Rightarrow> (string \<rightharpoonup> real) \<times> SearchEngine" where
  "idf_step db = (\<lambda>term (m, e). case calculate_idf e db term of (idf, e') \<Rightarrow> (m(term \<mapsto> idf), e'))"

lemma idf_step_eq:
  "idf_step db t (m, e) = (m(t \<mapsto> fst (calculate_idf e db t)), snd (calculate_idf e db t))"
  unfolding idf_step_def by (cases "calculate_idf e db t") (simp del: fun_upd_apply)

lemma term_idfs_fold:
  assumes "cache_ok e db"
  shows "fst (fold (idf_step db) qs (m, e)) = (\<lambda>t. if t \<in> set qs then Some (fresh_idf e db t) else m t)
       \<and> cache_ok (snd (fold (idf_step db) qs (m, e))) db
       \<and> total_documents (snd (fold (idf_step db) qs (m, e))) = total_documents e"
  using assms
proof (induction qs arbitrary: m e)
  case Nil
  then show ?case by simp
next
  case (Cons t qs)
  define e' where "e' = snd (calculate_idf e db t)"
  define m' where "m' = m(t \<mapsto> fresh_idf e db t)"
  from calculate_idf_ok [OF Cons.prems, of t]
  have v: "fst (calculate_idf e db t) = fresh_idf e db t"
    and n: "total_documents e' = total_documents e" and ok: "cache_ok e' db"
    by (simp_all add: e'_def)
  have step: "fold (idf_step db) (t # qs) (m, e) = fold (idf_step db) qs (m', e')"
    unfolding m'_def e'_def by (simp add: idf_step_eq v del: fun_upd_apply)
  have f: "fresh_idf e' db u = fresh_idf e db u" for u
    by (rule fresh_idf_cong) (rule n)
  from Cons.IH [OF ok, of m']
  have 1: "fst (fold (idf_step db) qs (m', e')) = (\<lambda>u. if u \<in> set qs then Some (fresh_idf e db u) else m' u)"
    and 2: "cache_ok (snd (fold (idf_step db) qs (m', e'))) db"
    and 3: "total_documents (snd (fold (idf_step db) qs (m', e'))) = total_documents e"
    unfolding f n by simp_all
  have "(\<lambda>u. if u \<in> set qs then Some (fresh_idf e db u) else m' u)
      = (\<lambda>u. if u \<in> set (t # qs) then Some (fresh_idf e db u) else m u)"
    by (auto simp: fun_eq_iff m'_def)
  with 1 2 3 show ?case unfolding step by simp
qed

lemma term_idfs_ok:
  assumes "cache_ok eng db"
  shows "fst (term_idfs eng db qs) = (\<lambda>t. if t \<in> set qs then Some (fresh_idf eng db t) else None)"
    and "cache_ok (snd (term_idfs eng db qs)) db"
    and "total_documents (snd (term_idfs eng db qs)) = total_documents eng"
  using term_idfs_fold [OF assms, of qs Map.empty] unfolding term_idfs_def idf_step_def by simp_all







text \<open>Both strategies leave the cache as one filled from the storage.\<close>

lemma taat_fold_ok:
  "cache_ok e db \<Longrightarrow>
   cache_ok (snd (fold (taat_term db lens) qs (scores, e))) db
   \<and> total_documents (snd (fold (taat_term db lens) qs (scores, e))) = total_documents e"
proof (induction qs arbitrary: scores e)
  case Nil
  then show ?case by simp
next
  case (Cons t qs)
  obtain s1 e1 where r: "taat_term db lens t (scores, e) = (s1, e1)"
    by (cases "taat_term db lens t (scores, e)")
  from taat_term_ok(2,3) [OF Cons.prems, of lens t scores] r
  have "total_documents e1 = total_documents e" "cache_ok e1 db" by simp_all
  with Cons.IH [of e1 s1] r show ?case by simp
qed

lemma search_term_at_a_time_cache_ok:
  assumes "cache_ok eng db"
  shows "cache_ok (snd (search_term_at_a_time eng db query use_pagerank)) db"
proof (cases "tokenize query STOP_WORDS = []")
  case True
  with assms show ?thesis by (simp add: search_term_at_a_time_def)
next
  case False
  obtain sc e where f: "fold (taat_term db (doc_lengths db)) (tokenize query STOP_WORDS) ([], eng) = (sc, e)"
    by (cases "fold (taat_term db (doc_lengths db)) (tokenize query STOP_WORDS) ([], eng)")
  from taat_fold_ok [OF assms, of "doc_lengths db" "tokenize query STOP_WORDS" "[]"] f
  have "cache_ok e db" by simp
  with False f show ?thesis by (simp add: search_term_at_a_time_def)
qed

lemma search_document_at_a_time_cache_ok:
  assumes "cache_ok eng db" and "search_document_at_a_time eng db query use_pagerank = Inr (res, eng')"
  shows "cache_ok eng' db"
proof (cases "tokenize query STOP_WORDS = []")
  case True
  with assms show ?thesis by (simp add: search_document_at_a_time_def)
next
  case False
  obtain m e where f: "term_idfs eng db (tokenize query STOP_WORDS) = (m, e)"
    by (cases "term_idfs eng db (tokenize query STOP_WORDS)")
  from term_idfs_ok(2) [OF assms(1), of "tokenize query STOP_WORDS"] f
  have "cache_ok e db" by simp
  moreover from assms(2) False f have "eng' = e"
    by (auto simp: search_document_at_a_time_def Let_def split: sum.splits)
  ultimately show ?thesis by simp
qed



section \<open>Claims\<close>

text \<open>
  C2. For a fixed corpus, query and \<open>use_pagerank\<close> flag, term-at-a-time and
  document-at-a-time give every document the same score. The code does not: on the
  corpus of the one document \<open>quick fox\<close>, indexed by \<open>index_document\<close>, and the query
  \<open>quick\<close> without pagerank, term-at-a-time scores the document 1 and
  document-at-a-time scores it 1/2. The index stores the count of the term, and
  term-at-a-time multiplies it by the length of the document before dividing by it.
\<close>

theorem C2_strategies_disagree:
  "search (se_init SEARCH_CONFIG quick_fox_db) quick_fox_db ''quick'' ''term'' False =
     Inr ([(1, 1, ''quick fox'')], (se_init SEARCH_CONFIG quick_fox_db) \<lparr> idf_cache := [''quick'' \<mapsto> 1] \<rparr>)
   \<and> search (se_init SEARCH_CONFIG quick_fox_db) quick_fox_db ''quick'' ''document'' False =
     Inr ([(1, 1 / 2, ''quick fox'')], (se_init SEARCH_CONFIG quick_fox_db) \<lparr> idf_cache := [''quick'' \<mapsto> 1] \<rparr>)"
proof -
  have "lower ''term'' = ''term''" by code_simp
  moreover have "lower ''document'' = ''document''" by code_simp
  ultimately show ?thesis
    by (simp add: search_def taat_quick_fox daat_quick_fox)
qed

text \<open>
  C5. On a storage without documents, constructing and running either engine raises
  nothing and gives the empty score mapping. The superstep engine does so; the
  map/reduce engine is constructed, and its \<open>calculate\<close> raises \<open>ZeroDivisionError\<close> in
  \<open>calculate_convergence\<close> on the first iteration.
\<close>

theorem C5_zero_documents:
  "run_pregel PAGERANK_CONFIG empty_db = Inr []
   \<and> run_mapreduce PAGERANK_CONFIG empty_db = Inl ZeroDivisionError"
  by (simp add: pagerank_defs eval_nat_numeral)

text \<open>
  C10. A method name whose lowercase form is neither \<open>term\<close> nor \<open>document\<close> makes
  \<open>search\<close> return what term-at-a-time returns, for every engine, storage, query and flag.
\<close>

theorem C10_unknown_method_is_term:
  assumes "lower m \<noteq> ''term''" and "lower m \<noteq> ''document''"
  shows "search eng db q m x = Inr (search_term_at_a_time eng db q x)"
  using assms by (simp add: search_def)

theorem C10_unknown_method_is_term_witness:
  "lower ''Fast'' \<noteq> ''term'' \<and> lower ''Fast'' \<noteq> ''document''
   \<and> search (se_init SEARCH_CONFIG quick_fox_db) quick_fox_db ''quick'' ''Fast'' False =
       Inr (search_term_at_a_time (se_init SEARCH_CONFIG quick_fox_db) quick_fox_db ''quick'' False)"
proof -
  have a: "lower ''Fast'' \<noteq> ''term''" by code_simp
  have b: "lower ''Fast'' \<noteq> ''document''" by code_simp
  from a b C10_unknown_method_is_term [OF a b] show ?thesis by simp
qed

text \<open>
  C3. Both engines start from the uniform vector \<open>1/N\<close>; after every superstep of the
  vertex engine and after every iteration of the map/reduce engine the scores of the
  documents sum to at most 1, and the sum is 1 only if no document has outdegree zero.
  Scores are exact reals, the damping factor lies strictly between 0 and 1 (the
  configured 0.85 does), the document ids are distinct (they are a primary key) and
  there is at least one document. \<open>pg_supersteps\<close> and \<open>mr_iterations\<close> run the loop
  body \<open>k\<close> times.
\<close>

theorem C3_scores_sum_at_most_one:
  assumes "0 < damping_factor cfg" and "damping_factor cfg < 1"
    and "distinct (doc_ids db)" and "doc_ids db \<noteq> []"
  shows "(\<exists>e g g0. pg_init cfg db = Inr e \<and> pg_graph e = Some g \<and> initialize_pagerank g = Inr g0
            \<and> (\<forall>v \<in> set (vertices g0). vvalue v = 1 / real (length (doc_ids db)))
            \<and> (\<forall>k>0. \<exists>gk. pg_supersteps (pg_damping_factor e) k g0 = Inr gk
                    \<and> total_value gk \<le> 1
                    \<and> (total_value gk = 1 \<longrightarrow> (\<forall>v \<in> set (vertices g). outgoing_edges v \<noteq> []))))
       \<and> (\<forall>i \<in> set (doc_ids db). dict_get (mr_pagerank (mr_init cfg db)) i 0 = 1 / real (length (doc_ids db)))
       \<and> (\<forall>k>0. \<exists>pr. mr_iterations (mr_init cfg db) k (mr_pagerank (mr_init cfg db)) = Inr pr
                \<and> mr_total (mr_init cfg db) pr \<le> 1
                \<and> (mr_total (mr_init cfg db) pr = 1 \<longrightarrow>
                      (\<forall>i \<in> set (doc_ids db). mr_outgoing_links (mr_init cfg db) i \<noteq> Some [])))"
proof (intro conjI)
  let ?n = "length (doc_ids db)"
  from pg_init_ok [OF assms(3,4), of cfg] obtain e g where
    init: "pg_init cfg db = Inr e" and gr: "pg_graph e = Some g"
    and d: "pg_damping_factor e = damping_factor cfg"
    and sh: "shape g ?n (\<lambda>i. link_targets (id_index (doc_ids db)) (get_outgoing_links db (doc_ids db ! i)))"
    by blast
  have wf: "wf_graph g" using sh by (rule pg_init_wf)
  have n: "num_vertices g = ?n" using sh by (simp add: shape_def)
  then have n0: "0 < num_vertices g" using assms(4) by simp
  from initialize_inv [OF wf n0] obtain g0 where
    ini: "initialize_pagerank g = Inr g0" and inv0: "pregel_inv g0"
    and e0: "map outgoing_edges (vertices g0) = map outgoing_edges (vertices g)"
    and v0: "\<forall>v \<in> set (vertices g0). active v \<and> vvalue v = 1 / real (num_vertices g)"
    by blast
  have same: "(\<forall>v \<in> set (vertices g0). outgoing_edges v \<noteq> []) = (\<forall>v \<in> set (vertices g). outgoing_edges v \<noteq> [])"
  proof -
    have "set (map outgoing_edges (vertices g0)) = set (map outgoing_edges (vertices g))"
      using e0 by simp
    then show ?thesis by (metis (no_types, lifting) image_iff list.set_map)
  qed
  have steps: "\<forall>k>0. \<exists>gk. pg_supersteps (pg_damping_factor e) k g0 = Inr gk
                    \<and> total_value gk \<le> 1
                    \<and> (total_value gk = 1 \<longrightarrow> (\<forall>v \<in> set (vertices g). outgoing_edges v \<noteq> []))"
  proof (intro allI impI)
    fix k :: nat assume k: "0 < k"
    from supersteps_inv [OF assms(1,2) inv0, of k] obtain gk where
      "pg_supersteps (damping_factor cfg) k g0 = Inr gk" and "pregel_inv gk"
      and "0 < k \<longrightarrow> total_value gk = 1 \<longrightarrow> (\<forall>v \<in> set (vertices g0). outgoing_edges v \<noteq> [])"
      by blast
    with k same d show "\<exists>gk. pg_supersteps (pg_damping_factor e) k g0 = Inr gk
                    \<and> total_value gk \<le> 1
                    \<and> (total_value gk = 1 \<longrightarrow> (\<forall>v \<in> set (vertices g). outgoing_edges v \<noteq> []))"
      by (auto simp: pregel_inv_def)
  qed
  from init gr ini v0 n steps
  show "\<exists>e g g0. pg_init cfg db = Inr e \<and> pg_graph e = Some g \<and> initialize_pagerank g = Inr g0
            \<and> (\<forall>v \<in> set (vertices g0). vvalue v = 1 / real (length (doc_ids db)))
            \<and> (\<forall>k>0. \<exists>gk. pg_supersteps (pg_damping_factor e) k g0 = Inr gk
                    \<and> total_value gk \<le> 1
                    \<and> (total_value gk = 1 \<longrightarrow> (\<forall>v \<in> set (vertices g). outgoing_edges v \<noteq> [])))"
    by auto
next
  show "\<forall>i \<in> set (doc_ids db). dict_get (mr_pagerank (mr_init cfg db)) i 0 = 1 / real (length (doc_ids db))"
    by (simp add: mr_init_fields fold_dict_const_get)
next
  let ?e = "mr_init cfg db"
  have wf: "mr_wf ?e" using assms(3,4) by (rule mr_init_wf)
  have inv: "mr_inv ?e (mr_pagerank ?e)" using assms(3,4) by (rule mr_init_inv)
  have d: "0 < mr_damping_factor ?e" "mr_damping_factor ?e < 1"
    using assms(1,2) by (simp_all add: mr_init_fields)
  show "\<forall>k>0. \<exists>pr. mr_iterations ?e k (mr_pagerank ?e) = Inr pr
                \<and> mr_total ?e pr \<le> 1
                \<and> (mr_total ?e pr = 1 \<longrightarrow>
                      (\<forall>i \<in> set (doc_ids db). mr_outgoing_links ?e i \<noteq> Some []))"
  proof (intro allI impI)
    fix k :: nat assume k: "0 < k"
    from iterations_inv [OF d wf inv, of k] obtain pr where
      "mr_iterations ?e k (mr_pagerank ?e) = Inr pr" and "mr_inv ?e pr"
      and "0 < k \<longrightarrow> mr_total ?e pr = 1 \<longrightarrow> (\<forall>i \<in> set (mr_doc_ids ?e). mr_outgoing_links ?e i \<noteq> Some [])"
      by blast
    with k show "\<exists>pr. mr_iterations ?e k (mr_pagerank ?e) = Inr pr
                \<and> mr_total ?e pr \<le> 1
                \<and> (mr_total ?e pr = 1 \<longrightarrow>
                      (\<forall>i \<in> set (doc_ids db). mr_outgoing_links ?e i \<noteq> Some []))"
      by (auto simp: mr_inv_def mr_init_fields)
  qed
qed

theorem C3_scores_sum_at_most_one_witness:
  "0 < damping_factor PAGERANK_CONFIG \<and> damping_factor PAGERANK_CONFIG < 1
   \<and> distinct (doc_ids two_docs_db) \<and> doc_ids two_docs_db \<noteq> []
   \<and> (\<exists>pr. mr_iterations (mr_init PAGERANK_CONFIG two_docs_db) 1
               (mr_pagerank (mr_init PAGERANK_CONFIG two_docs_db)) = Inr pr
             \<and> mr_total (mr_init PAGERANK_CONFIG two_docs_db) pr \<le> 1)"
proof -
  have h1: "0 < damping_factor PAGERANK_CONFIG" by (simp add: PAGERANK_CONFIG_def)
  have h2: "damping_factor PAGERANK_CONFIG < 1" by (simp add: PAGERANK_CONFIG_def)
  have h3: "distinct (doc_ids two_docs_db)"
    by (simp add: doc_ids_def get_all_documents_def two_docs_db_def empty_db_def)
  have h4: "doc_ids two_docs_db \<noteq> []"
    by (simp add: doc_ids_def get_all_documents_def two_docs_db_def empty_db_def)
  from C3_scores_sum_at_most_one [OF h1 h2 h3 h4]
  have "\<forall>k>0. \<exists>pr. mr_iterations (mr_init PAGERANK_CONFIG two_docs_db) k
               (mr_pagerank (mr_init PAGERANK_CONFIG two_docs_db)) = Inr pr
             \<and> mr_total (mr_init PAGERANK_CONFIG two_docs_db) pr \<le> 1
             \<and> (mr_total (mr_init PAGERANK_CONFIG two_docs_db) pr = 1 \<longrightarrow>
                      (\<forall>i \<in> set (doc_ids two_docs_db). mr_outgoing_links (mr_init PAGERANK_CONFIG two_docs_db) i \<noteq> Some []))"
    by blast
  then have "\<exists>pr. mr_iterations (mr_init PAGERANK_CONFIG two_docs_db) 1
               (mr_pagerank (mr_init PAGERANK_CONFIG two_docs_db)) = Inr pr
             \<and> mr_total (mr_init PAGERANK_CONFIG two_docs_db) pr \<le> 1"
    by (metis zero_less_one)
  with h1 h2 h3 h4 show ?thesis by blast
qed

text \<open>
  C1. For every link graph and the same damping factor, tolerance and iteration cap, the
  score vectors that the two \<open>calculate\<close> methods return differ by less than the
  tolerance for every document. The code does not: on two documents with one link from
  the first to the second, with the configured damping 0.85, tolerance 1e-6 and cap 100,
  the vertex engine returns 0.075 for both documents and the map/reduce engine returns
  0.13875 for the second. In the vertex engine a vertex that has stopped changing no
  longer sends, so the document it links to loses that contribution.
\<close>

theorem C1_engines_disagree:
  "run_pregel PAGERANK_CONFIG two_docs_db = Inr [(1, 3 / 40), (2, 3 / 40)]
   \<and> run_mapreduce PAGERANK_CONFIG two_docs_db = Inr [(2, 111 / 800), (1, 3 / 40)]
   \<and> \<not> \<bar>dict_get [(1, 3 / 40), (2, 3 / 40 :: real)] 2 0 - dict_get [(2, 111 / 800), (1, 3 / 40 :: real)] 2 0\<bar>
         < tolerance PAGERANK_CONFIG"
proof -
  have "\<not> \<bar>dict_get [(1, 3 / 40), (2, 3 / 40 :: real)] 2 0 - dict_get [(2, 111 / 800), (1, 3 / 40 :: real)] 2 0\<bar>
         < tolerance PAGERANK_CONFIG"
    by (simp add: dict_get_def PAGERANK_CONFIG_def)
  with pregel_two_docs mapreduce_two_docs show ?thesis by simp
qed

text \<open>
  C4, as stated: in every superstep every vertex with outgoing edges emits one message
  per edge. In \<open>stalled_graph\<close>, reached after two supersteps on \<open>two_docs_db\<close>, the
  first vertex has one outgoing edge and the value 0.075 but is inactive: the superstep
  emits no message, and the second vertex falls back to \<open>(1 - d) / N = 0.075\<close>.
\<close>

theorem C4_inactive_vertex_sends_nothing:
  "outgoing_edges (vertices stalled_graph ! 0) = [1] \<and> vvalue (vertices stalled_graph ! 0) = 3 / 40
   \<and> run_superstep (85 / 100) stalled_graph =
     Inr (\<lparr> vertices = [\<lparr> vid = 0, vvalue = 3 / 40, outgoing_edges = [1], active = False \<rparr>,
                         \<lparr> vid = 1, vvalue = 3 / 40, outgoing_edges = [], active = True \<rparr>],
             num_vertices = 2, superstep = 3, messages = [] \<rparr>, True)"
  by (simp add: stalled_graph_def superstep_defs)

text \<open>
  C4, amended: a superstep on a graph with \<open>num_vertices > 0\<close> (1) collects, from every
  active vertex with value \<open>v\<close> and \<open>k\<close> outgoing edges, one message \<open>(target, v / k)\<close>
  per edge, and none from an inactive vertex; (2) gives every vertex the value
  \<open>(1 - d) / N + d * incoming_sum\<close>, the sum over its inbox; (3) marks a vertex inactive
  exactly when the new value differs from the old one by at most \<open>1e-10\<close>; the inboxes
  are built from the values before the superstep, and the flag returned says whether a
  vertex is active.
\<close>

theorem C4_superstep:
  assumes "0 < num_vertices g"
  shows "\<exists>g' act. run_superstep d g = Inr (g', act)
           \<and> sent (vertices g) =
               concat (map (\<lambda>v. if active v
                                 then map (\<lambda>t. (t, vvalue v / real (length (outgoing_edges v)))) (outgoing_edges v)
                                 else [])
                           (vertices g))
           \<and> (\<forall>t. dict_get (messages g') t [] = inbox (sent (vertices g)) t)
           \<and> vertices g' =
               map (\<lambda>v. v \<lparr> vvalue := (1 - d) / real (num_vertices g) + d * sum_list (inbox (sent (vertices g)) (vid v)),
                             active := \<not> \<bar>(1 - d) / real (num_vertices g) + d * sum_list (inbox (sent (vertices g)) (vid v))
                                          - vvalue v\<bar> \<le> 1 / 10 ^ 10 \<rparr>)
                   (vertices g)
           \<and> act = (\<exists>v \<in> set (vertices g'). active v)
           \<and> superstep g' = superstep g + 1 \<and> num_vertices g' = num_vertices g"
proof -
  let ?msgs = "collect_messages (vertices g)"
  let ?vs' = "map (receive d (num_vertices g) ?msgs) (vertices g)"
  let ?g' = "g \<lparr> vertices := ?vs', superstep := superstep g + 1, messages := ?msgs \<rparr>"
  have run: "run_superstep d g = Inr (?g', 0 < length (filter active ?vs'))"
    using assms by (rule run_superstep_ok)
  have s: "sent (vertices g) =
               concat (map (\<lambda>v. if active v
                                 then map (\<lambda>t. (t, vvalue v / real (length (outgoing_edges v)))) (outgoing_edges v)
                                 else [])
                           (vertices g))"
    unfolding sent_def
    by (rule arg_cong [where f = concat], rule map_cong [OF refl]) (simp add: send_messages_def)
  have m: "\<forall>t. dict_get (messages ?g') t [] = inbox (sent (vertices g)) t"
    by (simp add: collect_messages_inbox)
  have v: "vertices ?g' =
               map (\<lambda>v. v \<lparr> vvalue := (1 - d) / real (num_vertices g) + d * sum_list (inbox (sent (vertices g)) (vid v)),
                             active := \<not> \<bar>(1 - d) / real (num_vertices g) + d * sum_list (inbox (sent (vertices g)) (vid v))
                                          - vvalue v\<bar> \<le> 1 / 10 ^ 10 \<rparr>)
                   (vertices g)"
    by (simp add: receive_def Let_def collect_messages_inbox not_le)
  have a: "(0 < length (filter active ?vs')) = (\<exists>v \<in> set (vertices ?g'). active v)"
    by (simp add: filter_empty_conv)
  from run s m v a show ?thesis
    by (intro exI [of _ ?g'] exI [of _ "0 < length (filter active ?vs')"]) simp
qed

theorem C4_superstep_witness:
  "0 < num_vertices stalled_graph
   \<and> (\<exists>g' act. run_superstep (85 / 100) stalled_graph = Inr (g', act)
        \<and> sent (vertices stalled_graph) = []
        \<and> dict_get (messages g') 1 [] = inbox (sent (vertices stalled_graph)) 1)"
proof -
  have h: "0 < num_vertices stalled_graph" by (simp add: stalled_graph_def)
  have "sent (vertices stalled_graph) = []"
    by (simp add: sent_def stalled_graph_def send_messages_def)
  with h C4_superstep [OF h, of "85 / 100"] show ?thesis by blast
qed










end
